theory Spec2Isabelle
  imports Main "HOL-Library.Word" "HOL-Library.Sublist"
begin

section \<open>The world the notebooks run in\<close>

text \<open>
  The two notebooks contain one piece of authored logic, the dataset fetcher of
  \<^verbatim>\<open>select/feature_selection.ipynb\<close>, and a handful of cells that load a table, rename
  its columns, select columns and save one figure. Everything else is a call into a library.

  The fetcher only has effects, so the model threads an explicit world through every call:
  the working directory of the notebook, a tree of files, the free space of the disk, and
  the log of the library calls made so far. An exception is the value \<open>Inl e\<close>; the world
  is returned beside it, since a Python exception leaves on disk whatever was done before
  it was raised.
\<close>

type_synonym byte = "8 word"
type_synonym bytes = "byte list"

datatype error =
    FileNotFoundError
  | FileExistsError
  | NotADirectoryError
  | IsADirectoryError
  | NoSpaceError
  | RequestException string
  | BadZipFile string
  | ParserError string
  | ValueError
  | KeyError string

datatype node = Dir | File bytes

text \<open>A file is addressed by the list of its components below the root.\<close>

type_synonym key = "string list"
type_synonym filesystem = "key \<Rightarrow> node option"

text \<open>A member of a zip archive: its stored name, and its data once decompressed
  (or the error decompressing it raises).\<close>

type_synonym member = "string \<times> (error + bytes)"

datatype call =
    Exists string
  | Mkdir string
  | Get string
  | Open_wb string
  | Write key bytes
  | ZipFile string
  | Extractall "member list" string
  | Read_csv string
  | Read_excel string
  | Savefig string
  | Print string
  | Run string

record world =
  cwd :: key
  fs :: filesystem
  free :: nat
  calls :: "call list"

type_synonym 'a io = "world \<Rightarrow> (error + 'a) \<times> world"

definition return_io :: "'a \<Rightarrow> 'a io" where
  "return_io x = (\<lambda>w. (Inr x, w))"

definition raise_io :: "error \<Rightarrow> 'a io" where
  "raise_io e = (\<lambda>w. (Inl e, w))"

text \<open>Sequencing of two statements: an exception of the first skips the second.\<close>

definition bind_io :: "'a io \<Rightarrow> ('a \<Rightarrow> 'b io) \<Rightarrow> 'b io" where
  "bind_io m f = (\<lambda>w. case m w of (Inl e, w') \<Rightarrow> (Inl e, w') | (Inr x, w') \<Rightarrow> f x w')"

definition log :: "call \<Rightarrow> world \<Rightarrow> world" where
  "log c w = w\<lparr>calls := calls w @ [c]\<rparr>"

section \<open>Path names\<close>

text \<open>Python's \<^verbatim>\<open>s.split('/')\<close>.\<close>

fun split_sep :: "string \<Rightarrow> string list" where
  "split_sep [] = [[]]"
| "split_sep (c # cs) =
     (if c = CHR ''/'' then [] # split_sep cs
      else (case split_sep cs of [] \<Rightarrow> [[c]] | p # ps \<Rightarrow> (c # p) # ps))"

text \<open>
  \<^verbatim>\<open>os.path.join(a, b)\<close> of \<^verbatim>\<open>posixpath\<close>: an absolute \<open>b\<close> replaces \<open>a\<close>; otherwise
  \<open>b\<close> is appended, after a separator unless \<open>a\<close> is empty or ends with one.
\<close>

definition os_path_join :: "string \<Rightarrow> string \<Rightarrow> string" where
  "os_path_join a b =
     (if b \<noteq> [] \<and> hd b = CHR ''/'' then b
      else if a = [] \<or> last a = CHR ''/'' then a @ b
      else a @ ''/'' @ b)"

text \<open>
  One component of a path name, followed from the directory \<open>cur\<close>; the lexical version
  is \<^verbatim>\<open>os.path.normpath\<close>.
\<close>

definition norm_step :: "key \<Rightarrow> string \<Rightarrow> key" where
  "norm_step cur c =
     (if c = [] \<or> c = ''.'' then cur else if c = ''..'' then butlast cur else cur @ [c])"

definition step :: "filesystem \<Rightarrow> key \<Rightarrow> string \<Rightarrow> error + key" where
  "step f cur c =
     (case f cur of
        None \<Rightarrow> Inl FileNotFoundError
      | Some (File _) \<Rightarrow> Inl NotADirectoryError
      | Some Dir \<Rightarrow> Inr (norm_step cur c))"

fun walk :: "filesystem \<Rightarrow> key \<Rightarrow> string list \<Rightarrow> error + key" where
  "walk f cur [] = Inr cur"
| "walk f cur (c # cs) =
     (case step f cur c of Inl e \<Rightarrow> Inl e | Inr nxt \<Rightarrow> walk f nxt cs)"

definition start :: "world \<Rightarrow> string \<Rightarrow> key" where
  "start w p = (if p \<noteq> [] \<and> hd p = CHR ''/'' then [] else cwd w)"

definition strip_trailing :: "string list \<Rightarrow> string list" where
  "strip_trailing cs = rev (dropWhile (\<lambda>c. c = []) (rev cs))"

text \<open>
  Path resolution of the operating system: every directory on the way must exist, the
  last component need not. Trailing separators are dropped and remembered, since a name
  with a trailing separator can only stand for a directory.
\<close>

definition resolve :: "world \<Rightarrow> string \<Rightarrow> error + (key \<times> bool)" where
  "resolve w p =
     (if p = [] then Inl FileNotFoundError
      else (case walk (fs w) (start w p) (strip_trailing (split_sep p)) of
              Inl e \<Rightarrow> Inl e
            | Inr k \<Rightarrow> Inr (k, last p = CHR ''/'')))"

definition lexical :: "world \<Rightarrow> string \<Rightarrow> key" where
  "lexical w p = foldl norm_step (start w p) (split_sep p)"

section \<open>The library calls the fetcher makes\<close>

definition path_exists :: "world \<Rightarrow> string \<Rightarrow> bool" where
  "path_exists w p =
     (case resolve w p of
        Inl _ \<Rightarrow> False
      | Inr (k, slash) \<Rightarrow>
          (case fs w k of None \<Rightarrow> False | Some Dir \<Rightarrow> True | Some (File _) \<Rightarrow> \<not> slash))"

definition os_path_exists :: "string \<Rightarrow> bool io" where
  "os_path_exists p w = (Inr (path_exists w p), log (Exists p) w)"

definition mkdir_key :: "filesystem \<Rightarrow> key \<Rightarrow> error + filesystem" where
  "mkdir_key f k =
     (if f k \<noteq> None then Inl FileExistsError
      else (case f (butlast k) of
              None \<Rightarrow> Inl FileNotFoundError
            | Some (File _) \<Rightarrow> Inl NotADirectoryError
            | Some Dir \<Rightarrow> Inr (f(k \<mapsto> Dir))))"

text \<open>\<^verbatim>\<open>os.mkdir\<close> creates one directory; its parent must exist.\<close>

definition os_mkdir :: "string \<Rightarrow> unit io" where
  "os_mkdir p w =
     (let w1 = log (Mkdir p) w in
      case resolve w1 p of
        Inl e \<Rightarrow> (Inl e, w1)
      | Inr (k, slash) \<Rightarrow>
          (case mkdir_key (fs w1) k of
             Inl e \<Rightarrow> (Inl e, w1)
           | Inr f \<Rightarrow> (Inr (), w1\<lparr>fs := f\<rparr>)))"

text \<open>
  \<^verbatim>\<open>requests.get(url)\<close>. The network is a parameter: the answer to a request for \<open>url\<close>
  made after \<open>n\<close> library calls, a body or an exception. (A reply with an error status is
  a body: \<^verbatim>\<open>requests.get\<close> does not raise on it.)
\<close>

type_synonym network = "string \<Rightarrow> nat \<Rightarrow> error + bytes"

definition requests_get :: "network \<Rightarrow> string \<Rightarrow> bytes io" where
  "requests_get http url w = (http url (length (calls w)), log (Get url) w)"

text \<open>Creating or truncating the file at a key, as \<^verbatim>\<open>open(p, 'wb')\<close> does once the name is
  resolved.\<close>

definition truncate_key :: "key \<Rightarrow> bool \<Rightarrow> world \<Rightarrow> (error + key) \<times> world" where
  "truncate_key k slash w =
     (case fs w k of
        Some Dir \<Rightarrow> (Inl IsADirectoryError, w)
      | Some (File old) \<Rightarrow>
          if slash then (Inl NotADirectoryError, w)
          else (Inr k, w\<lparr>fs := (fs w)(k \<mapsto> File []), free := free w + length old\<rparr>)
      | None \<Rightarrow>
          if slash then (Inl IsADirectoryError, w)
          else (case fs w (butlast k) of
                  None \<Rightarrow> (Inl FileNotFoundError, w)
                | Some (File _) \<Rightarrow> (Inl NotADirectoryError, w)
                | Some Dir \<Rightarrow> (Inr k, w\<lparr>fs := (fs w)(k \<mapsto> File [])\<rparr>)))"

definition open_wb :: "string \<Rightarrow> key io" where
  "open_wb p w =
     (let w1 = log (Open_wb p) w in
      case resolve w1 p of
        Inl e \<Rightarrow> (Inl e, w1)
      | Inr (k, slash) \<Rightarrow> truncate_key k slash w1)"

definition content :: "world \<Rightarrow> key \<Rightarrow> bytes" where
  "content w k = (case fs w k of Some (File c) \<Rightarrow> c | _ \<Rightarrow> [])"

text \<open>
  Appending to an open file. When the disk has no room for all of the data, the part that
  fits is written and the write raises.
\<close>

definition append_key :: "key \<Rightarrow> bytes \<Rightarrow> unit io" where
  "append_key k d w =
     (if length d \<le> free w
      then (Inr (), w\<lparr>fs := (fs w)(k \<mapsto> File (content w k @ d)), free := free w - length d\<rparr>)
      else (Inl NoSpaceError,
            w\<lparr>fs := (fs w)(k \<mapsto> File (content w k @ take (free w) d)), free := 0\<rparr>))"

definition file_write :: "key \<Rightarrow> bytes \<Rightarrow> unit io" where
  "file_write k d w = append_key k d (log (Write k d) w)"

section \<open>The fetcher\<close>

definition OCCUPANCY :: "string \<times> string" where
  "OCCUPANCY = (''http://bit.ly/ddl-occupancy-dataset'', ''occupancy.zip'')"

definition CREDIT :: "string \<times> string" where
  "CREDIT = (''http://bit.ly/ddl-credit-dataset'', ''credit.xls'')"

definition CONCRETE :: "string \<times> string" where
  "CONCRETE = (''http://bit.ly/ddl-concrete-data'', ''concrete.xls'')"

text \<open>
  \<^verbatim>\<open>
  def download_data(url, name, path='data'):
      if not os.path.exists(path):
          os.mkdir(path)

      response = requests.get(url)
      with open(os.path.join(path, name), 'wb') as f:
          f.write(response.content)
  \<close>
\<close>

definition download_data :: "network \<Rightarrow> string \<Rightarrow> string \<Rightarrow> string \<Rightarrow> unit io" where
  "download_data http url name path =
     bind_io (os_path_exists path) (\<lambda>exists.
     bind_io (if \<not> exists then os_mkdir path else return_io ()) (\<lambda>_.
     bind_io (requests_get http url) (\<lambda>response.
     bind_io (open_wb (os_path_join path name)) (\<lambda>f.
       file_write f response))))"

text \<open>
  \<^verbatim>\<open>for x in xs: body(x)\<close>: the body runs once per element, in order, and an exception
  leaves the loop.
\<close>

fun for_each :: "('a \<Rightarrow> unit io) \<Rightarrow> 'a list \<Rightarrow> unit io" where
  "for_each body [] = return_io ()"
| "for_each body (x # xs) = bind_io (body x) (\<lambda>_. for_each body xs)"

subsection \<open>The zip archive\<close>

definition read_bytes :: "string \<Rightarrow> bytes io" where
  "read_bytes p w =
     (case resolve w p of
        Inl e \<Rightarrow> (Inl e, w)
      | Inr (k, slash) \<Rightarrow>
          (case fs w k of
             None \<Rightarrow> (Inl FileNotFoundError, w)
           | Some Dir \<Rightarrow> (Inl IsADirectoryError, w)
           | Some (File c) \<Rightarrow> if slash then (Inl NotADirectoryError, w) else (Inr c, w)))"

text \<open>
  \<^verbatim>\<open>zipfile.ZipFile(p)\<close> reads the archive's directory. The format is a parameter:
  \<open>unzip\<close> decodes the bytes of an archive into its members, or raises.
\<close>

type_synonym decoder = "bytes \<Rightarrow> error + member list"

definition zipfile_ZipFile :: "decoder \<Rightarrow> string \<Rightarrow> member list io" where
  "zipfile_ZipFile unzip p w =
     bind_io (read_bytes p) (\<lambda>c w'. (unzip c, w')) (log (ZipFile p) w)"

definition mkdir_at :: "key \<Rightarrow> unit io" where
  "mkdir_at k w =
     (case mkdir_key (fs w) k of Inl e \<Rightarrow> (Inl e, w) | Inr f \<Rightarrow> (Inr (), w\<lparr>fs := f\<rparr>))"

text \<open>
  \<^verbatim>\<open>os.makedirs\<close>, on a key given last component first: the parent is made first when it
  does not exist.
\<close>

fun makedirs_rev :: "string list \<Rightarrow> unit io" where
  "makedirs_rev [] w = mkdir_at [] w"
| "makedirs_rev (c # up) w =
     bind_io (\<lambda>w. if fs w (rev up) = None then makedirs_rev up w else return_io () w)
       (\<lambda>_. mkdir_at (rev (c # up))) w"

definition is_dir_name :: "string \<Rightarrow> bool" where
  "is_dir_name n = (n \<noteq> [] \<and> last n = CHR ''/'')"

text \<open>The archive's member names are made relative: empty, \<^verbatim>\<open>.\<close> and \<^verbatim>\<open>..\<close> components
  are removed before the name is joined to the target.\<close>

definition arcname_parts :: "string \<Rightarrow> string list" where
  "arcname_parts n = filter (\<lambda>x. x \<noteq> [] \<and> x \<noteq> ''.'' \<and> x \<noteq> ''..'') (split_sep n)"

definition extract_member :: "key \<Rightarrow> member \<Rightarrow> unit io" where
  "extract_member base m =
     (let dest = base @ arcname_parts (fst m); upper = butlast dest in
      bind_io (\<lambda>w. if fs w upper = None then makedirs_rev (rev upper) w else return_io () w) (\<lambda>_.
        if is_dir_name (fst m)
        then (\<lambda>w. if fs w dest = Some Dir then return_io () w else mkdir_at dest w)
        else bind_io (truncate_key dest False) (\<lambda>k.
               case snd m of Inl e \<Rightarrow> raise_io e | Inr d \<Rightarrow> append_key k d)))"

definition extractall :: "member list \<Rightarrow> string \<Rightarrow> unit io" where
  "extractall z target w =
     for_each (extract_member (lexical w target)) z (log (Extractall z target) w)"

text \<open>
  \<^verbatim>\<open>
  def download_all(path='data'):
      for href, name in (OCCUPANCY, CREDIT, CONCRETE):
          download_data(href, name, path)

      # Extract the occupancy zip data
      z = zipfile.ZipFile(os.path.join(path, 'occupancy.zip'))
      z.extractall(os.path.join(path, 'occupancy'))

  path='data'
  download_all(path)
  \<close>
\<close>

definition download_all :: "network \<Rightarrow> decoder \<Rightarrow> string \<Rightarrow> unit io" where
  "download_all http unzip path =
     bind_io (for_each (\<lambda>(href, name). download_data http href name path)
                [OCCUPANCY, CREDIT, CONCRETE]) (\<lambda>_.
     bind_io (zipfile_ZipFile unzip (os_path_join path ''occupancy.zip'')) (\<lambda>z.
       extractall z (os_path_join path ''occupancy'')))"

definition fetch_cell :: "network \<Rightarrow> decoder \<Rightarrow> unit io" where
  "fetch_cell http unzip = download_all http unzip ''data''"

section \<open>Tables\<close>

text \<open>
  A data frame, column by column: the column labels, the values of each column, and the
  row labels. The values are of any type; no cell of the notebook computes with them
  before handing them to a library.
\<close>

record 'v frame =
  columns :: "string list"
  series :: "'v list list"
  index :: "'v list"

type_synonym 'v parser = "bytes \<Rightarrow> error + 'v frame"

definition pd_read_csv :: "'v parser \<Rightarrow> string \<Rightarrow> 'v frame io" where
  "pd_read_csv parse p w =
     bind_io (read_bytes p) (\<lambda>c w'. (parse c, w')) (log (Read_csv p) w)"

definition pd_read_excel :: "(nat \<Rightarrow> 'v parser) \<Rightarrow> string \<Rightarrow> nat \<Rightarrow> 'v frame io" where
  "pd_read_excel parse p header w =
     bind_io (read_bytes p) (\<lambda>c w'. (parse header c, w')) (log (Read_excel p) w)"

text \<open>\<^verbatim>\<open>df.columns = names\<close>: the labels are replaced, one per column; a list of another
  length is refused.\<close>

definition set_columns :: "string list \<Rightarrow> 'v frame \<Rightarrow> error + 'v frame" where
  "set_columns names df =
     (if length names \<noteq> length (series df) then Inl ValueError
      else Inr (df\<lparr>columns := names\<rparr>))"

text \<open>
  \<^verbatim>\<open>
  occupancy = os.path.join('data','occupancy','datatraining.txt')
  occupancy = pd.read_csv(occupancy, sep=',')
  occupancy.columns = [
      'date', 'temp', 'humid', 'light', 'co2', 'hratio', 'occupied'
  ]
  \<close>
\<close>

definition occupancy_columns :: "string list" where
  "occupancy_columns =
     [''date'', ''temp'', ''humid'', ''light'', ''co2'', ''hratio'', ''occupied'']"

definition load_occupancy :: "'v parser \<Rightarrow> 'v frame io" where
  "load_occupancy parse =
     bind_io (pd_read_csv parse
                (os_path_join (os_path_join ''data'' ''occupancy'') ''datatraining.txt''))
       (\<lambda>occupancy w. (set_columns occupancy_columns occupancy, w))"

text \<open>
  \<^verbatim>\<open>
  credit = os.path.join('data','credit.xls')
  credit = pd.read_excel(credit, header=1)
  credit.columns = [ 'id', 'limit', ..., 'default' ]

  concrete = pd.read_excel(os.path.join('data','concrete.xls'))
  concrete.columns = [ 'cement', 'slag', ..., 'strength' ]
  \<close>
\<close>

definition credit_columns :: "string list" where
  "credit_columns =
     [''id'', ''limit'', ''sex'', ''edu'', ''married'', ''age'', ''apr_delay'', ''may_delay'',
      ''jun_delay'', ''jul_delay'', ''aug_delay'', ''sep_delay'', ''apr_bill'', ''may_bill'',
      ''jun_bill'', ''jul_bill'', ''aug_bill'', ''sep_bill'', ''apr_pay'', ''may_pay'', ''jun_pay'',
      ''jul_pay'', ''aug_pay'', ''sep_pay'', ''default'']"

definition load_credit :: "(nat \<Rightarrow> 'v parser) \<Rightarrow> 'v frame io" where
  "load_credit parse =
     bind_io (pd_read_excel parse (os_path_join ''data'' ''credit.xls'') 1)
       (\<lambda>credit w. (set_columns credit_columns credit, w))"

definition concrete_columns :: "string list" where
  "concrete_columns =
     [''cement'', ''slag'', ''ash'', ''water'', ''splast'',
      ''coarse'', ''fine'', ''age'', ''strength'']"

definition load_concrete :: "(nat \<Rightarrow> 'v parser) \<Rightarrow> 'v frame io" where
  "load_concrete parse =
     bind_io (pd_read_excel parse (os_path_join ''data'' ''concrete.xls'') 0)
       (\<lambda>concrete w. (set_columns concrete_columns concrete, w))"

text \<open>The positions of the columns labelled \<open>name\<close>.\<close>

definition locs :: "'v frame \<Rightarrow> string \<Rightarrow> nat list" where
  "locs df name = filter (\<lambda>i. columns df ! i = name) [0 ..< length (columns df)]"

text \<open>\<^verbatim>\<open>df[[n1, n2, ...]]\<close>: a new frame of the named columns, in the order asked for.\<close>

definition getitem_list :: "'v frame \<Rightarrow> string list \<Rightarrow> error + 'v frame" where
  "getitem_list df names =
     (case filter (\<lambda>n. locs df n = []) names of
        n # _ \<Rightarrow> Inl (KeyError n)
      | [] \<Rightarrow>
          (let is = concat (map (locs df) names) in
           Inr \<lparr>columns = map (\<lambda>i. columns df ! i) is,
                series = map (\<lambda>i. series df ! i) is,
                index = index df\<rparr>))"

datatype 'v selection = Series "'v list" "'v list" | Frame "'v frame"

text \<open>\<^verbatim>\<open>df[n]\<close>: the column labelled \<open>n\<close> with the row labels, or a frame when several
  columns carry the label.\<close>

definition getitem :: "'v frame \<Rightarrow> string \<Rightarrow> error + 'v selection" where
  "getitem df name =
     (case locs df name of
        [] \<Rightarrow> Inl (KeyError name)
      | [i] \<Rightarrow> Inr (Series (series df ! i) (index df))
      | is \<Rightarrow> Inr (Frame \<lparr>columns = map (\<lambda>i. columns df ! i) is,
                          series = map (\<lambda>i. series df ! i) is,
                          index = index df\<rparr>))"

text \<open>
  \<^verbatim>\<open>
  features = occupancy[['temp', 'humid', 'light', 'co2', 'hratio']]
  labels   = occupancy['occupied']
  \<close>
  The cell's result is the three variables after it.
\<close>

definition separate ::
  "'v frame \<Rightarrow> error + ('v frame \<times> 'v frame \<times> 'v selection)" where
  "separate occupancy =
     (case getitem_list occupancy [''temp'', ''humid'', ''light'', ''co2'', ''hratio''] of
        Inl e \<Rightarrow> Inl e
      | Inr features \<Rightarrow>
          (case getitem occupancy ''occupied'' of
             Inl e \<Rightarrow> Inl e
           | Inr labels \<Rightarrow> Inr (occupancy, features, labels)))"

section \<open>The plotting notebook\<close>

text \<open>
  \<^verbatim>\<open>plt.savefig("figures/quadratics.png")\<close> ends the one cell that writes a file; the
  rendered figure is a parameter. \<^verbatim>\<open>savefig\<close> opens the file for writing and creates
  no directory.
\<close>

definition plt_savefig :: "bytes \<Rightarrow> string \<Rightarrow> unit io" where
  "plt_savefig png p w =
     (let w1 = log (Savefig p) w in
      case resolve w1 p of
        Inl e \<Rightarrow> (Inl e, w1)
      | Inr (k, slash) \<Rightarrow> bind_io (truncate_key k slash) (\<lambda>f. append_key f png) w1)"

definition quadratics_cell :: "bytes \<Rightarrow> unit io" where
  "quadratics_cell png = plt_savefig png ''figures/quadratics.png''"

text \<open>\<^verbatim>\<open>for style in plt.style.available: print("- {}".format(style))\<close>\<close>

definition print_io :: "string \<Rightarrow> unit io" where
  "print_io s w = (Inr (), log (Print s) w)"

definition styles_cell :: "string list \<Rightarrow> unit io" where
  "styles_cell available = for_each (\<lambda>style. print_io (''- '' @ style)) available"

section \<open>The cells without control flow\<close>







section \<open>Concrete worlds\<close>

text \<open>
  A small disk, used to run the definitions: the root, a home directory, and in one of
  the worlds the directory \<^verbatim>\<open>data\<close> or a regular file \<^verbatim>\<open>notes\<close> below it. The notebook
  runs in the home directory.
\<close>

definition fs_home :: filesystem where
  "fs_home = [[] \<mapsto> Dir, [''home''] \<mapsto> Dir]"

definition w_home :: world where
  "w_home = \<lparr>cwd = [''home''], fs = fs_home, free = 64, calls = []\<rparr>"

definition w_data :: world where
  "w_data = w_home\<lparr>fs := fs_home([''home'', ''data''] \<mapsto> Dir)\<rparr>"

definition w_notes :: world where
  "w_notes = w_home\<lparr>fs := fs_home([''home'', ''notes''] \<mapsto> File [7])\<rparr>"

text \<open>A network that answers one address with three bytes and fails for every other.\<close>

definition http_one :: network where
  "http_one url n = (if url = ''u'' then Inr [1, 2, 3] else Inl (RequestException ''no route''))"

text \<open>A network that answers every address with the same two bytes.\<close>

definition http_all :: network where
  "http_all url n = Inr [80, 75]"

text \<open>A network that answers the occupancy address alone.\<close>

definition http_first :: network where
  "http_first url n =
     (if url = fst OCCUPANCY then Inr [80, 75] else Inl (RequestException ''no route''))"

definition w_old :: world where
  "w_old = w_home\<lparr>fs := fs_home([''home'', ''data''] \<mapsto> Dir,
                                   [''home'', ''data'', ''f.bin''] \<mapsto> File [9, 9, 9, 9, 9])\<rparr>"

text \<open>The data directory after the fetch, with three files of a few bytes, and parsers
  that ignore them: a table of seven columns and two rows, and sheets of as many columns
  as the notebook names.\<close>

definition w_loaded :: world where
  "w_loaded = w_home\<lparr>fs := fs_home([''home'', ''data''] \<mapsto> Dir,
                                   [''home'', ''data'', ''credit.xls''] \<mapsto> File [208, 207],
                                   [''home'', ''data'', ''concrete.xls''] \<mapsto> File [208, 207],
                                   [''home'', ''data'', ''occupancy''] \<mapsto> Dir,
                                   [''home'', ''data'', ''occupancy'', ''datatraining.txt'']
                                     \<mapsto> File [100, 97, 116, 101])\<rparr>"

definition parse_two_rows :: "nat parser" where
  "parse_two_rows c =
     Inr \<lparr>columns = [''date'', ''Temperature'', ''Humidity'', ''Light'', ''CO2'',
                     ''HumidityRatio'', ''Occupancy''],
          series = [[20150204, 20150205], [23, 22], [27, 26], [426, 0], [721, 700], [4, 3], [1, 0]],
          index = [1, 2]\<rparr>"

definition parse_sheet :: "nat \<Rightarrow> nat parser" where
  "parse_sheet header c =
     Inr \<lparr>columns = replicate (if header = 1 then 25 else 9) ''X'',
          series = replicate (if header = 1 then 25 else 9) [0, 0],
          index = [0, 1]\<rparr>"

definition occupancy_two_rows :: "nat frame" where
  "occupancy_two_rows =
     \<lparr>columns = [''date'', ''temp'', ''humid'', ''light'', ''co2'', ''hratio'', ''occupied''],
      series = [[20150204, 20150205], [23, 22], [27, 26], [426, 0], [721, 700], [4, 3], [1, 0]],
      index = [1, 2]\<rparr>"

text \<open>A decoder that knows one archive, of two members; the second is stored under a name
  that tries to leave the target directory.\<close>

definition unzip_two :: decoder where
  "unzip_two b =
     (if b = [80, 75]
      then Inr [(''datatraining.txt'', Inr [100, 97]), (''sub/../../evil.txt'', Inr [1])]
      else Inl (BadZipFile ''File is not a zip file''))"

text \<open>A decoder that takes nothing for an archive, and a disk with room for two bytes.\<close>

definition unzip_none :: decoder where
  "unzip_none b = Inl (BadZipFile ''File is not a zip file'')"

definition w_full :: world where
  "w_full = w_data\<lparr>free := 2\<rparr>"

text \<open>A home directory with a directory for the figures.\<close>

definition w_figures :: world where
  "w_figures = w_home\<lparr>fs := fs_home([''home'', ''figures''] \<mapsto> Dir)\<rparr>"



section \<open>Notions used in the statements\<close>

text \<open>A plain file name: one component, which names neither the directory itself nor its
  parent.\<close>

definition plain_name :: "string \<Rightarrow> bool" where
  "plain_name n = (n \<noteq> [] \<and> CHR ''/'' \<notin> set n \<and> n \<noteq> ''.'' \<and> n \<noteq> ''..'')"


text \<open>The calls that move data: requests, files opened for writing, the archive.\<close>

fun transfer :: "call \<Rightarrow> bool" where
  "transfer (Get u) = True"
| "transfer (Open_wb p) = True"
| "transfer (ZipFile p) = True"
| "transfer (Extractall z t) = True"
| "transfer c = False"

text \<open>The library call \<open>c\<close>, made in the world \<open>w\<close>, raised \<open>e\<close> and left the world \<open>w'\<close>.\<close>

definition raised :: "network \<Rightarrow> decoder \<Rightarrow> call \<Rightarrow> world \<Rightarrow> error \<Rightarrow> world \<Rightarrow> bool" where
  "raised http unzip c w e w' =
     (case c of
        Mkdir p \<Rightarrow> os_mkdir p w = (Inl e, w')
      | Get u \<Rightarrow> requests_get http u w = (Inl e, w')
      | Open_wb p \<Rightarrow> open_wb p w = (Inl e, w')
      | Write k d \<Rightarrow> file_write k d w = (Inl e, w')
      | ZipFile p \<Rightarrow> zipfile_ZipFile unzip p w = (Inl e, w')
      | Extractall z t \<Rightarrow> extractall z t w = (Inl e, w')
      | _ \<Rightarrow> False)"

text \<open>Every run of \<open>m\<close> relates the world it starts in to the world it leaves.\<close>

definition preserves :: "(world \<Rightarrow> world \<Rightarrow> bool) \<Rightarrow> 'a io \<Rightarrow> bool" where
  "preserves R m = (\<forall>w r w'. m w = (r, w') \<longrightarrow> R w w')"

abbreviation same_calls :: "world \<Rightarrow> world \<Rightarrow> bool" where
  "same_calls \<equiv> \<lambda>w w'. calls w' = calls w"

text \<open>A run from \<open>w\<close> has ended in \<open>w'\<close> with the exception \<open>e\<close> of the last library
  call it made.\<close>

definition last_call_raised :: "network \<Rightarrow> decoder \<Rightarrow> world \<Rightarrow> error \<Rightarrow> world \<Rightarrow> bool" where
  "last_call_raised http unzip w e w' =
     (\<exists>c w0 pre. calls w0 = calls w @ pre \<and> calls w' = calls w0 @ [c] \<and>
                 raised http unzip c w0 e w')"

text \<open>Every run of \<open>m\<close> makes the transfers \<open>L\<close>, in this order, when it returns, and the
  first of them when it raises.\<close>

definition traces :: "'a io \<Rightarrow> call list \<Rightarrow> bool" where
  "traces m L =
     (\<forall>w r w'. m w = (r, w') \<longrightarrow>
        (\<exists>new. calls w' = calls w @ new \<and> prefix (filter transfer new) L \<and>
               (\<not> isl r \<longrightarrow> filter transfer new = L)))"

text \<open>Started where \<open>P\<close> holds, \<open>m\<close> returns \<open>x\<close> in a world where \<open>Q x\<close> holds, or raises
  in a world where \<open>E\<close> holds.\<close>

definition triple ::
  "(world \<Rightarrow> bool) \<Rightarrow> 'a io \<Rightarrow> ('a \<Rightarrow> world \<Rightarrow> bool) \<Rightarrow> (world \<Rightarrow> bool) \<Rightarrow> bool" where
  "triple P m Q E =
     (\<forall>w r w'. P w \<longrightarrow> m w = (r, w') \<longrightarrow> (case r of Inl e \<Rightarrow> E w' | Inr x \<Rightarrow> Q x w'))"

text \<open>Between two worlds at most the entry \<open>k\<close> has changed, and no directory has
  gone.\<close>

definition only_at :: "key \<Rightarrow> world \<Rightarrow> world \<Rightarrow> bool" where
  "only_at k w w' =
     (cwd w' = cwd w \<and> (\<forall>q. q \<noteq> k \<longrightarrow> fs w' q = fs w q) \<and>
      (\<forall>q. fs w q = Some Dir \<longrightarrow> fs w' q = Some Dir))"

text \<open>Outside the directory \<open>d\<close> the files are those of \<open>f\<close>; the working directory is
  \<open>c\<close>.\<close>

definition inside :: "key \<Rightarrow> key \<Rightarrow> filesystem \<Rightarrow> world \<Rightarrow> bool" where
  "inside d c f w = (cwd w = c \<and> (\<forall>k. \<not> prefix d k \<longrightarrow> fs w k = f k))"

text \<open>The same, inside the entry \<open>x\<close> of a directory \<open>e\<close> that exists.\<close>

definition inside_dir :: "key \<Rightarrow> string \<Rightarrow> key \<Rightarrow> filesystem \<Rightarrow> world \<Rightarrow> bool" where
  "inside_dir e x c f w = (inside (e @ [x]) c f w \<and> fs w e = Some Dir)"



text \<open>Between two worlds every entry but the one at \<open>d\<close> is still there, and so is every
  directory.\<close>

definition kept :: "key \<Rightarrow> world \<Rightarrow> world \<Rightarrow> bool" where
  "kept d w w' =
     (cwd w' = cwd w \<and> (\<forall>q y. q \<noteq> d \<longrightarrow> fs w q = Some y \<longrightarrow> fs w' q = Some y) \<and>
      (\<forall>q. fs w q = Some Dir \<longrightarrow> fs w' q = Some Dir))"

section \<open>Basic facts\<close>

lemma bind_io_Inr:
  "bind_io m f w = (Inr y, w') \<longleftrightarrow> (\<exists>x w1. m w = (Inr x, w1) \<and> f x w1 = (Inr y, w'))"
  by (auto simp: bind_io_def split: prod.splits sum.splits)

lemma bind_io_Inl:
  "bind_io m f w = (Inl e, w') \<longleftrightarrow>
     m w = (Inl e, w') \<or> (\<exists>x w1. m w = (Inr x, w1) \<and> f x w1 = (Inl e, w'))"
  by (auto simp: bind_io_def split: prod.splits sum.splits)

lemma log_simps [simp]:
  "fs (log c w) = fs w" "cwd (log c w) = cwd w" "free (log c w) = free w"
  "calls (log c w) = calls w @ [c]"
  by (simp_all add: log_def)

subsection \<open>Path names\<close>

lemma split_sep_nonempty: "split_sep s \<noteq> []"
  by (cases s) (auto split: list.splits)

lemma split_sep_append:
  "split_sep (xs @ CHR ''/'' # ys) = split_sep xs @ split_sep ys"
  by (induction xs) (auto split: list.splits simp: split_sep_nonempty)

lemma split_sep_plain: "CHR ''/'' \<notin> set s \<Longrightarrow> split_sep s = [s]"
  by (induction s) auto

lemma walk_append:
  "walk f cur (cs @ ds) = (case walk f cur cs of Inl e \<Rightarrow> Inl e | Inr k \<Rightarrow> walk f k ds)"
  by (induction cs arbitrary: cur) (auto split: sum.splits)

text \<open>A walk that succeeds only looks at directories: it succeeds, with the same result,
  on every tree that still has them.\<close>

lemma walk_keeps:
  assumes "walk f cur cs = Inr k" and "\<And>q. f q = Some Dir \<Longrightarrow> g q = Some Dir"
  shows "walk g cur cs = Inr k"
  using assms(1)
proof (induction cs arbitrary: cur)
  case Nil
  then show ?case by simp
next
  case (Cons c cs)
  then show ?case
    by (auto simp: step_def assms(2) split: option.splits node.splits sum.splits)
qed

lemma walk_empties:
  "\<forall>c\<in>set ds. c = [] \<Longrightarrow> walk f k ds = Inr k' \<Longrightarrow> k' = k"
  by (induction ds arbitrary: k)
     (auto simp: step_def norm_step_def split: sum.splits option.splits node.splits)

lemma strip_trailing_decomp:
  "\<exists>ds. cs = strip_trailing cs @ ds \<and> (\<forall>c\<in>set ds. c = [])"
proof -
  have "rev cs = takeWhile (\<lambda>c. c = []) (rev cs) @ dropWhile (\<lambda>c. c = []) (rev cs)"
    by simp
  then have "cs = strip_trailing cs @ rev (takeWhile (\<lambda>c. c = []) (rev cs))"
    unfolding strip_trailing_def by (metis rev_append rev_rev_ident)
  moreover have "\<forall>c\<in>set (rev (takeWhile (\<lambda>c. c = []) (rev cs))). c = []"
    by (auto dest: set_takeWhileD)
  ultimately show ?thesis by blast
qed

lemma walk_strip_trailing:
  assumes "walk f s cs = Inr k"
  shows "walk f s (strip_trailing cs) = Inr k"
proof -
  obtain ds where cs: "cs = strip_trailing cs @ ds" and ds: "\<forall>c\<in>set ds. c = []"
    using strip_trailing_decomp by blast
  from assms cs have "(case walk f s (strip_trailing cs) of Inl e \<Rightarrow> Inl e | Inr q \<Rightarrow> walk f q ds) = Inr k"
    by (metis walk_append)
  then obtain q where q: "walk f s (strip_trailing cs) = Inr q" and "walk f q ds = Inr k"
    by (auto split: sum.splits)
  with walk_empties [OF ds] show ?thesis by blast
qed

lemma strip_trailing_snoc: "c \<noteq> [] \<Longrightarrow> strip_trailing (cs @ [c]) = cs @ [c]"
  by (simp add: strip_trailing_def)

text \<open>The components of a joined name, when the second part is a plain file name.\<close>

lemma split_sep_join:
  assumes "plain_name name" and "path \<noteq> []"
  shows "\<exists>q. split_sep (os_path_join path name) = split_sep q @ [name] \<and>
             strip_trailing (split_sep path) = strip_trailing (split_sep q)"
proof (cases "last path = CHR ''/''")
  case True
  with assms(2) have p: "path = butlast path @ ''/''"
    by (metis append_butlast_last_id)
  from assms(1) True have "os_path_join path name = butlast path @ CHR ''/'' # name"
    using p by (cases name) (auto simp: os_path_join_def plain_name_def)
  then have 1: "split_sep (os_path_join path name) = split_sep (butlast path) @ [name]"
    using assms(1) by (simp add: split_sep_append split_sep_plain plain_name_def)
  have "split_sep path = split_sep (butlast path) @ [[]]"
    using split_sep_append [of "butlast path" "[]"] p by simp
  then have "strip_trailing (split_sep path) = strip_trailing (split_sep (butlast path))"
    by (simp add: strip_trailing_def)
  with 1 show ?thesis by blast
next
  case False
  with assms have "os_path_join path name = path @ CHR ''/'' # name"
    by (cases name) (auto simp: os_path_join_def plain_name_def)
  then have "split_sep (os_path_join path name) = split_sep path @ [name]"
    using assms(1) by (simp add: split_sep_append split_sep_plain plain_name_def)
  then show ?thesis by blast
qed

lemma hd_os_path_join:
  "plain_name name \<Longrightarrow> path \<noteq> [] \<Longrightarrow> hd (os_path_join path name) = hd path"
  by (cases path; cases name) (auto simp: os_path_join_def plain_name_def)

lemma last_os_path_join:
  "plain_name name \<Longrightarrow> last (os_path_join path name) = last name"
  by (auto simp: os_path_join_def plain_name_def)

lemma os_path_join_nonempty: "plain_name name \<Longrightarrow> os_path_join path name \<noteq> []"
  by (auto simp: os_path_join_def plain_name_def)

text \<open>A file named by joining a directory name and a plain file name lies in that
  directory.\<close>

lemma resolve_join_plain:
  assumes pl: "plain_name name" and ne: "path \<noteq> []"
    and r: "resolve w (os_path_join path name) = Inr (k, s)"
  shows "\<exists>kp sp. resolve w path = Inr (kp, sp) \<and> fs w kp = Some Dir \<and> k = kp @ [name] \<and> \<not> s"
proof -
  from split_sep_join [OF pl ne] obtain q where
    sp: "split_sep (os_path_join path name) = split_sep q @ [name]"
    and st: "strip_trailing (split_sep path) = strip_trailing (split_sep q)"
    by blast
  from pl have nn: "name \<noteq> []" by (simp add: plain_name_def)
  have s0: "start w (os_path_join path name) = start w path"
    using hd_os_path_join [OF pl ne] ne os_path_join_nonempty [OF pl] by (simp add: start_def)
  from r have wk: "walk (fs w) (start w path) (split_sep q @ [name]) = Inr k"
    and s: "s = (last name = CHR ''/'')"
    by (auto simp: resolve_def sp s0 strip_trailing_snoc [OF nn] last_os_path_join [OF pl]
           split: if_splits sum.splits)
  from wk obtain kp where kp: "walk (fs w) (start w path) (split_sep q) = Inr kp"
    and stp: "step (fs w) kp name = Inr k"
    by (auto simp: walk_append split: sum.splits)
  from stp pl have d: "fs w kp = Some Dir" and k: "k = kp @ [name]"
    by (auto simp: step_def norm_step_def plain_name_def split: option.splits node.splits)
  from walk_strip_trailing [OF kp] have "resolve w path = Inr (kp, last path = CHR ''/'')"
    by (simp add: resolve_def ne st)
  moreover from pl have "last name \<noteq> CHR ''/''"
    by (metis last_in_set plain_name_def)
  with s have "\<not> s" by simp
  ultimately show ?thesis using d k by blast
qed

lemma walk_lexical: "walk f s cs = Inr k \<Longrightarrow> foldl norm_step s cs = k"
  by (induction cs arbitrary: s) (auto simp: step_def split: sum.splits option.splits node.splits)

lemma foldl_norm_step_empties: "\<forall>c\<in>set ds. c = [] \<Longrightarrow> foldl norm_step k ds = k"
  by (induction ds) (auto simp: norm_step_def)

lemma lexical_join_plain:
  assumes pl: "plain_name name" and ne: "path \<noteq> []"
    and r: "resolve w path = Inr (kp, sp)"
  shows "lexical w (os_path_join path name) = kp @ [name]"
proof -
  from split_sep_join [OF pl ne] obtain q where
    sp: "split_sep (os_path_join path name) = split_sep q @ [name]"
    and st: "strip_trailing (split_sep path) = strip_trailing (split_sep q)"
    by blast
  have s0: "start w (os_path_join path name) = start w path"
    using hd_os_path_join [OF pl ne] ne os_path_join_nonempty [OF pl] by (simp add: start_def)
  from r ne have "walk (fs w) (start w path) (strip_trailing (split_sep q)) = Inr kp"
    by (auto simp: resolve_def st split: sum.splits)
  then have 1: "foldl norm_step (start w path) (strip_trailing (split_sep q)) = kp"
    by (rule walk_lexical)
  obtain ds where ds: "split_sep q = strip_trailing (split_sep q) @ ds" "\<forall>c\<in>set ds. c = []"
    using strip_trailing_decomp by blast
  have "foldl norm_step (start w path) (split_sep q) =
        foldl norm_step (foldl norm_step (start w path) (strip_trailing (split_sep q))) ds"
    by (subst ds(1)) simp
  with 1 ds(2) have "foldl norm_step (start w path) (split_sep q) = kp"
    by (simp add: foldl_norm_step_empties)
  with pl show ?thesis
    by (simp add: lexical_def sp s0 norm_step_def plain_name_def)
qed

lemma resolve_cong: "fs w1 = fs w2 \<Longrightarrow> cwd w1 = cwd w2 \<Longrightarrow> resolve w1 p = resolve w2 p"
  by (simp add: resolve_def start_def)

lemma resolve_log [simp]: "resolve (log c w) p = resolve w p"
  by (rule resolve_cong) simp_all

lemma resolve_calls [simp]: "resolve (w\<lparr>calls := c\<rparr>) p = resolve w p"
  by (rule resolve_cong) simp_all

lemma resolve_keeps:
  assumes "resolve w p = Inr (k, s)" and "cwd w' = cwd w"
    and "\<And>q. fs w q = Some Dir \<Longrightarrow> fs w' q = Some Dir"
  shows "resolve w' p = Inr (k, s)"
proof -
  from assms(1) have p: "p \<noteq> []" and s: "s = (last p = CHR ''/'')"
    and wk: "walk (fs w) (start w p) (strip_trailing (split_sep p)) = Inr k"
    by (auto simp: resolve_def split: if_splits sum.splits)
  have "start w' p = start w p" by (simp add: start_def assms(2))
  with walk_keeps [OF wk, of "fs w'"] assms(3) show ?thesis
    by (simp add: resolve_def p s)
qed

lemma content_log [simp]: "content (log c w) k = content w k"
  by (simp add: content_def)

subsection \<open>The library calls\<close>

lemma os_mkdir_Inr:
  "os_mkdir p w = (Inr u, w') \<longleftrightarrow>
     (\<exists>k s. resolve w p = Inr (k, s) \<and> fs w k = None \<and> fs w (butlast k) = Some Dir \<and>
            w' = (log (Mkdir p) w)\<lparr>fs := (fs w)(k \<mapsto> Dir)\<rparr>)"
  by (auto simp: os_mkdir_def mkdir_key_def Let_def
           split: sum.splits prod.splits option.splits node.splits if_splits)

lemma open_wb_Inr:
  "open_wb p w = (Inr f, w') \<longleftrightarrow>
     resolve w p = Inr (f, False) \<and> fs w f \<noteq> Some Dir \<and>
     (fs w f = None \<longrightarrow> fs w (butlast f) = Some Dir) \<and>
     w' = (log (Open_wb p) w)\<lparr>fs := (fs w)(f \<mapsto> File []), free := free w + length (content w f)\<rparr>"
  by (auto simp: open_wb_def truncate_key_def content_def Let_def
           split: sum.splits prod.splits option.splits node.splits if_splits)

lemma file_write_Inr:
  "file_write k d w = (Inr u, w') \<longleftrightarrow>
     length d \<le> free w \<and>
     w' = (log (Write k d) w)\<lparr>fs := (fs w)(k \<mapsto> File (content w k @ d)),
                               free := free w - length d\<rparr>"
  by (auto simp: file_write_def append_key_def)

lemma path_exists_iff:
  "path_exists w p \<longleftrightarrow>
     (\<exists>k s. resolve w p = Inr (k, s) \<and> (fs w k = Some Dir \<or> (\<exists>c. fs w k = Some (File c) \<and> \<not> s)))"
  by (auto simp: path_exists_def split: sum.splits prod.splits option.splits node.splits)

lemma path_exists_keeps:
  assumes "path_exists w p" and "cwd w' = cwd w"
    and d: "\<And>q. fs w q = Some Dir \<Longrightarrow> fs w' q = Some Dir"
    and f: "\<And>q c. fs w q = Some (File c) \<Longrightarrow> \<exists>c'. fs w' q = Some (File c')"
  shows "path_exists w' p"
proof -
  from assms(1) obtain k s where r: "resolve w p = Inr (k, s)"
    and n: "fs w k = Some Dir \<or> (\<exists>c. fs w k = Some (File c) \<and> \<not> s)"
    by (auto simp: path_exists_iff)
  have "resolve w' p = Inr (k, s)" using r assms(2) d by (rule resolve_keeps)
  moreover from n d f have "fs w' k = Some Dir \<or> (\<exists>c. fs w' k = Some (File c) \<and> \<not> s)"
    by blast
  ultimately show ?thesis by (auto simp: path_exists_iff)
qed

text \<open>The world once the directory has been looked for and, if missing, made.\<close>

lemma stage_facts:
  assumes "path_exists w path \<and> wd = log (Exists path) w \<or>
       \<not> path_exists w path \<and> os_mkdir path (log (Exists path) w) = (Inr (), wd)"
  shows "cwd wd = cwd w" and "free wd = free w"
    and "calls wd = calls w @ (if path_exists w path then [Exists path] else [Exists path, Mkdir path])"
    and "fs w q = Some x \<Longrightarrow> fs wd q = Some x"
    and "path_exists wd path"
proof -
  show "cwd wd = cwd w" "free wd = free w"
    "calls wd = calls w @ (if path_exists w path then [Exists path] else [Exists path, Mkdir path])"
    using assms by (auto simp: os_mkdir_Inr)
  show "fs wd q = Some x" if "fs w q = Some x"
    using assms that by (auto simp: os_mkdir_Inr)
  show "path_exists wd path"
  proof (cases "path_exists w path")
    case True
    with assms have "wd = log (Exists path) w" by auto
    with True show ?thesis by (auto simp: path_exists_iff)
  next
    case False
    with assms obtain k s where r: "resolve w path = Inr (k, s)" and n: "fs w k = None"
      and wd: "wd = (log (Mkdir path) (log (Exists path) w))\<lparr>fs := (fs w)(k \<mapsto> Dir)\<rparr>"
      by (auto simp: os_mkdir_Inr)
    have "resolve wd path = Inr (k, s)"
      using r by (rule resolve_keeps) (use n in \<open>auto simp: wd\<close>)
    then show ?thesis by (simp add: path_exists_iff wd)
  qed
qed

subsection \<open>Relations kept by every step\<close>

lemma preservesD: "preserves R m \<Longrightarrow> m w = (r, w') \<Longrightarrow> R w w'"
  by (auto simp: preserves_def)

lemma preserves_return: "reflp R \<Longrightarrow> preserves R (return_io x)"
  by (auto simp: preserves_def return_io_def reflp_def)

lemma preserves_raise: "reflp R \<Longrightarrow> preserves R (raise_io e)"
  by (auto simp: preserves_def raise_io_def reflp_def)

lemma preserves_bind:
  assumes "transp R" and "preserves R m" and "\<And>x. preserves R (f x)"
  shows "preserves R (bind_io m f)"
  unfolding preserves_def bind_io_def
proof (intro allI impI)
  fix w r w'
  assume a: "(case m w of (Inl e, w') \<Rightarrow> (Inl e, w') | (Inr x, w') \<Rightarrow> f x w') = (r, w')"
  obtain r1 w1 where m: "m w = (r1, w1)" by (cases "m w")
  with assms(2) have 1: "R w w1" by (auto simp: preserves_def)
  show "R w w'"
  proof (cases r1)
    case (Inl e)
    with a m 1 show ?thesis by simp
  next
    case (Inr x)
    with a m have "f x w1 = (r, w')" by simp
    with assms(3) have "R w1 w'" by (auto simp: preserves_def)
    with 1 assms(1) show ?thesis by (auto dest: transpD)
  qed
qed

lemma preserves_if:
  assumes "preserves R a" and "preserves R b"
  shows "preserves R (\<lambda>w. if c w then a w else b w)"
  using assms by (auto simp: preserves_def)

lemma preserves_for_each:
  assumes "reflp R" and "transp R" and "\<And>x. preserves R (body x)"
  shows "preserves R (for_each body xs)"
  by (induction xs) (auto intro: preserves_return preserves_bind assms)

subsection \<open>The log of calls\<close>

lemma os_mkdir_calls: "os_mkdir p w = (r, w') \<Longrightarrow> calls w' = calls w @ [Mkdir p]"
  by (auto simp: os_mkdir_def Let_def split: sum.splits prod.splits)

lemma requests_get_calls: "requests_get http u w = (r, w') \<Longrightarrow> calls w' = calls w @ [Get u]"
  by (auto simp: requests_get_def)

lemma truncate_key_calls: "truncate_key k s w = (r, w') \<Longrightarrow> calls w' = calls w"
  by (auto simp: truncate_key_def split: option.splits node.splits if_splits)

lemma append_key_calls: "append_key k d w = (r, w') \<Longrightarrow> calls w' = calls w"
  by (auto simp: append_key_def split: if_splits)

lemma mkdir_at_calls: "mkdir_at k w = (r, w') \<Longrightarrow> calls w' = calls w"
  by (auto simp: mkdir_at_def split: sum.splits)

lemma open_wb_calls: "open_wb p w = (r, w') \<Longrightarrow> calls w' = calls w @ [Open_wb p]"
  by (auto simp: open_wb_def Let_def dest: truncate_key_calls split: sum.splits prod.splits)

lemma file_write_calls: "file_write k d w = (r, w') \<Longrightarrow> calls w' = calls w @ [Write k d]"
  by (auto simp: file_write_def dest: append_key_calls)

lemma read_bytes_world: "read_bytes p w = (r, w') \<Longrightarrow> w' = w"
  by (auto simp: read_bytes_def split: sum.splits prod.splits option.splits node.splits if_splits)

lemma zipfile_ZipFile_world: "zipfile_ZipFile unzip p w = (r, w') \<Longrightarrow> w' = log (ZipFile p) w"
  by (auto simp: zipfile_ZipFile_def bind_io_def dest: read_bytes_world
           split: sum.splits prod.splits)

lemma same_calls_order: "reflp same_calls" "transp same_calls"
  by (auto simp: reflp_def transp_def)

lemma basic_same_calls:
  "preserves same_calls (truncate_key k s)" "preserves same_calls (append_key k d)"
  "preserves same_calls (mkdir_at k)"
  by (auto simp: preserves_def dest: truncate_key_calls append_key_calls mkdir_at_calls)

lemma makedirs_rev_calls: "preserves same_calls (makedirs_rev ks)"
proof (induction ks)
  case Nil
  have "makedirs_rev [] = mkdir_at []" by (rule ext) simp
  then show ?case by (simp add: basic_same_calls)
next
  case (Cons c up)
  have "makedirs_rev (c # up) =
      bind_io (\<lambda>w. if fs w (rev up) = None then makedirs_rev up w else return_io () w)
        (\<lambda>_. mkdir_at (rev (c # up)))"
    by (rule ext) simp
  then show ?case
    by (auto intro!: preserves_bind preserves_if preserves_return Cons basic_same_calls
          same_calls_order)
qed

lemma extract_member_calls: "preserves same_calls (extract_member base m)"
proof -
  have "preserves same_calls (case d of Inl e \<Rightarrow> raise_io e | Inr b \<Rightarrow> append_key k b)"
    for d :: "error + bytes" and k
    by (cases d) (auto intro: preserves_raise basic_same_calls same_calls_order)
  then show ?thesis
    unfolding extract_member_def Let_def
    by (auto intro!: preserves_bind preserves_if preserves_return makedirs_rev_calls
          basic_same_calls same_calls_order)
qed

lemma extractall_calls:
  assumes "extractall z t w = (r, w')"
  shows "calls w' = calls w @ [Extractall z t]"
proof -
  have "preserves same_calls (for_each (extract_member (lexical w t)) z)"
    by (intro preserves_for_each same_calls_order extract_member_calls)
  from preservesD [OF this assms [unfolded extractall_def]] show ?thesis by simp
qed

lemma raised_simps:
  "raised http unzip (Mkdir p) w e w' \<longleftrightarrow> os_mkdir p w = (Inl e, w')"
  "raised http unzip (Get u) w e w' \<longleftrightarrow> requests_get http u w = (Inl e, w')"
  "raised http unzip (Open_wb p) w e w' \<longleftrightarrow> open_wb p w = (Inl e, w')"
  "raised http unzip (Write k d) w e w' \<longleftrightarrow> file_write k d w = (Inl e, w')"
  "raised http unzip (ZipFile p) w e w' \<longleftrightarrow> zipfile_ZipFile unzip p w = (Inl e, w')"
  "raised http unzip (Extractall z t) w e w' \<longleftrightarrow> extractall z t w = (Inl e, w')"
  by (simp_all add: raised_def)

subsection \<open>A download that returns\<close>

text \<open>
  The world \<open>wd\<close> is the one after the directory has been looked for and, if missing,
  made. From there a returning call has asked for \<open>url\<close> once, opened the joined name and
  written the answer.
\<close>

lemma download_data_Inr:
  assumes "download_data http url name path w = (Inr u, w')"
  shows "\<exists>wd k body.
      (path_exists w path \<and> wd = log (Exists path) w \<or>
       \<not> path_exists w path \<and> os_mkdir path (log (Exists path) w) = (Inr (), wd))
    \<and> http url (length (calls wd)) = Inr body
    \<and> resolve wd (os_path_join path name) = Inr (k, False)
    \<and> fs wd k \<noteq> Some Dir
    \<and> length body \<le> free wd + length (content wd k)
    \<and> w' = wd\<lparr>calls := calls wd @ [Get url, Open_wb (os_path_join path name), Write k body],
              fs := (fs wd)(k \<mapsto> File body),
              free := free wd + length (content wd k) - length body\<rparr>"
proof -
  from assms obtain ex w1 wd body w3 k w4 where
    e: "os_path_exists path w = (Inr ex, w1)" and
    d: "(if \<not> ex then os_mkdir path else return_io ()) w1 = (Inr (), wd)" and
    g: "requests_get http url wd = (Inr body, w3)" and
    op: "open_wb (os_path_join path name) w3 = (Inr k, w4)" and
    wr: "file_write k body w4 = (Inr u, w')"
    unfolding download_data_def bind_io_Inr by auto
  from e have ex: "ex = path_exists w path" and w1: "w1 = log (Exists path) w"
    by (auto simp: os_path_exists_def)
  from d have stage: "path_exists w path \<and> wd = log (Exists path) w \<or>
       \<not> path_exists w path \<and> os_mkdir path (log (Exists path) w) = (Inr (), wd)"
    by (auto simp: ex w1 return_io_def split: if_splits)
  from g have body: "http url (length (calls wd)) = Inr body" and w3: "w3 = log (Get url) wd"
    by (auto simp: requests_get_def)
  from op w3 have r: "resolve wd (os_path_join path name) = Inr (k, False)"
    and nd: "fs wd k \<noteq> Some Dir"
    and w4: "w4 = (log (Open_wb (os_path_join path name)) w3)
               \<lparr>fs := (fs wd)(k \<mapsto> File []), free := free wd + length (content wd k)\<rparr>"
    by (auto simp: open_wb_Inr)
  from wr have le: "length body \<le> free w4"
    and w': "w' = (log (Write k body) w4)\<lparr>fs := (fs w4)(k \<mapsto> File (content w4 k @ body)),
                               free := free w4 - length body\<rparr>"
    by (auto simp: file_write_Inr)
  have c4: "content w4 k = []" by (simp add: w4 content_def)
  have "w' = wd\<lparr>calls := calls wd @ [Get url, Open_wb (os_path_join path name), Write k body],
              fs := (fs wd)(k \<mapsto> File body),
              free := free wd + length (content wd k) - length body\<rparr>"
    unfolding w' c4 by (simp add: w4 w3 log_def)
  moreover have "length body \<le> free wd + length (content wd k)"
    using le by (simp add: w4)
  ultimately show ?thesis using stage body r nd by blast
qed

subsection \<open>A download that raises\<close>

text \<open>A download that raises: the exception is the one of the last library call made, and
  the world is as that call left it.\<close>

lemma download_data_Inl:
  assumes "download_data http url name path w = (Inl e, w')"
  shows "\<exists>c w0 pre. calls w0 = calls w @ pre \<and> calls w' = calls w0 @ [c] \<and>
           raised http unzip c w0 e w' \<and>
           prefix (filter transfer (pre @ [c])) [Get url, Open_wb (os_path_join path name)]"
proof -
  let ?w1 = "log (Exists path) w"
  let ?p = "os_path_join path name"
  from assms consider
      (mk) "\<not> path_exists w path" "os_mkdir path ?w1 = (Inl e, w')"
    | (rest) wd where
        "path_exists w path \<and> wd = ?w1 \<or>
         \<not> path_exists w path \<and> os_mkdir path ?w1 = (Inr (), wd)"
        "bind_io (requests_get http url) (\<lambda>response.
           bind_io (open_wb ?p) (\<lambda>f. file_write f response)) wd = (Inl e, w')"
    unfolding download_data_def
    by (subst (asm) bind_io_Inl, subst (asm) bind_io_Inl)
       (auto simp: os_path_exists_def return_io_def split: if_splits)
  then show ?thesis
  proof cases
    case mk
    have "calls ?w1 = calls w @ [Exists path]" by simp
    moreover from mk(2) have "calls w' = calls ?w1 @ [Mkdir path]" by (rule os_mkdir_calls)
    moreover from mk(2) have "raised http unzip (Mkdir path) ?w1 e w'" by (simp add: raised_simps)
    ultimately show ?thesis
      by (intro exI [of _ "Mkdir path"] exI [of _ ?w1] exI [of _ "[Exists path]"]) simp
  next
    case rest
    let ?pre = "if path_exists w path then [Exists path] else [Exists path, Mkdir path]"
    from stage_facts(3) [OF rest(1)] have cd: "calls wd = calls w @ ?pre" .
    have tp: "filter transfer ?pre = []" by simp
    from rest(2) consider
        (get) "requests_get http url wd = (Inl e, w')"
      | (opn) body where "requests_get http url wd = (Inr body, log (Get url) wd)"
              "open_wb ?p (log (Get url) wd) = (Inl e, w')"
      | (wrt) body k w4 where "requests_get http url wd = (Inr body, log (Get url) wd)"
              "open_wb ?p (log (Get url) wd) = (Inr k, w4)"
              "file_write k body w4 = (Inl e, w')"
      by (subst (asm) bind_io_Inl, subst (asm) bind_io_Inl) (auto simp: requests_get_def)
    then show ?thesis
    proof cases
      case get
      from get have "calls w' = calls wd @ [Get url]" by (rule requests_get_calls)
      moreover from get have "raised http unzip (Get url) wd e w'" by (simp add: raised_simps)
      ultimately show ?thesis using cd tp
        by (intro exI [of _ "Get url"] exI [of _ wd] exI [of _ ?pre]) simp
    next
      case opn
      let ?w0 = "log (Get url) wd"
      have "calls ?w0 = calls w @ (?pre @ [Get url])" by (simp add: cd)
      moreover from opn(2) have "calls w' = calls ?w0 @ [Open_wb ?p]" by (rule open_wb_calls)
      moreover from opn(2) have "raised http unzip (Open_wb ?p) ?w0 e w'"
        by (simp add: raised_simps)
      ultimately show ?thesis using tp
        by (intro exI [of _ "Open_wb ?p"] exI [of _ ?w0] exI [of _ "?pre @ [Get url]"]) simp
    next
      case wrt
      from wrt(2) have "calls w4 = calls (log (Get url) wd) @ [Open_wb ?p]"
        by (rule open_wb_calls)
      then have "calls w4 = calls w @ (?pre @ [Get url, Open_wb ?p])" by (simp add: cd)
      moreover from wrt(3) have "calls w' = calls w4 @ [Write k body]" by (rule file_write_calls)
      moreover from wrt(3) have "raised http unzip (Write k body) w4 e w'"
        by (simp add: raised_simps)
      ultimately show ?thesis using tp
        by (intro exI [of _ "Write k body"] exI [of _ w4] exI [of _ "?pre @ [Get url, Open_wb ?p]"])
           simp
    qed
  qed
qed

lemma download_data_Inr_calls:
  assumes "download_data http url name path w = (Inr u, w')"
  shows "\<exists>new. calls w' = calls w @ new \<and>
           filter transfer new = [Get url, Open_wb (os_path_join path name)]"
proof -
  from download_data_Inr [OF assms] obtain wd k body where
    stage: "path_exists w path \<and> wd = log (Exists path) w \<or>
       \<not> path_exists w path \<and> os_mkdir path (log (Exists path) w) = (Inr (), wd)"
    and w': "w' = wd\<lparr>calls := calls wd @ [Get url, Open_wb (os_path_join path name), Write k body],
              fs := (fs wd)(k \<mapsto> File body),
              free := free wd + length (content wd k) - length body\<rparr>"
    by blast
  let ?pre = "if path_exists w path then [Exists path] else [Exists path, Mkdir path]"
  have "calls w' = calls w @ (?pre @ [Get url, Open_wb (os_path_join path name), Write k body])"
    by (simp add: w' stage_facts(3) [OF stage])
  moreover have "filter transfer (?pre @ [Get url, Open_wb (os_path_join path name), Write k body])
      = [Get url, Open_wb (os_path_join path name)]"
    by simp
  ultimately show ?thesis by blast
qed

subsection \<open>The transfers of the fetcher\<close>

lemma tracesD:
  "traces m L \<Longrightarrow> m w = (r, w') \<Longrightarrow>
     \<exists>new. calls w' = calls w @ new \<and> prefix (filter transfer new) L \<and>
           (\<not> isl r \<longrightarrow> filter transfer new = L)"
  by (auto simp: traces_def)

lemma traces_return: "traces (return_io x) []"
  by (auto simp: traces_def return_io_def)

lemma traces_bind:
  assumes m: "traces m L1" and f: "\<And>x. traces (f x) L2"
  shows "traces (bind_io m f) (L1 @ L2)"
  unfolding traces_def
proof (intro allI impI)
  fix w r w'
  assume a: "bind_io m f w = (r, w')"
  obtain r1 w1 where mw: "m w = (r1, w1)" by (cases "m w")
  from tracesD [OF m mw] obtain n1 where n1: "calls w1 = calls w @ n1"
    and p1: "prefix (filter transfer n1) L1" and e1: "\<not> isl r1 \<longrightarrow> filter transfer n1 = L1"
    by blast
  show "\<exists>new. calls w' = calls w @ new \<and> prefix (filter transfer new) (L1 @ L2) \<and>
           (\<not> isl r \<longrightarrow> filter transfer new = L1 @ L2)"
  proof (cases r1)
    case (Inl e)
    with a mw have "r = Inl e" "w' = w1" by (simp_all add: bind_io_def)
    with n1 p1 show ?thesis by (auto intro: prefix_prefix)
  next
    case (Inr x)
    with a mw have "f x w1 = (r, w')" by (simp add: bind_io_def)
    from tracesD [OF f this] obtain n2 where n2: "calls w' = calls w1 @ n2"
      and p2: "prefix (filter transfer n2) L2" and e2: "\<not> isl r \<longrightarrow> filter transfer n2 = L2"
      by blast
    from Inr e1 have "filter transfer n1 = L1" by simp
    with n1 n2 p2 e2 show ?thesis
      by (intro exI [of _ "n1 @ n2"]) simp
  qed
qed

lemma traces_download_data:
  "traces (download_data http url name path) [Get url, Open_wb (os_path_join path name)]"
  unfolding traces_def
proof (intro allI impI)
  fix w r w'
  assume a: "download_data http url name path w = (r, w')"
  show "\<exists>new. calls w' = calls w @ new \<and>
          prefix (filter transfer new) [Get url, Open_wb (os_path_join path name)] \<and>
          (\<not> isl r \<longrightarrow> filter transfer new = [Get url, Open_wb (os_path_join path name)])"
  proof (cases r)
    case (Inl e)
    with a download_data_Inl [where unzip = "\<lambda>_. Inr []", of http url name path w e w']
    obtain c and w0 :: world and pre where "calls w0 = calls w @ pre" "calls w' = calls w0 @ [c]"
      "prefix (filter transfer (pre @ [c])) [Get url, Open_wb (os_path_join path name)]"
      by blast
    with Inl show ?thesis by (intro exI [of _ "pre @ [c]"]) simp
  next
    case (Inr u)
    with a download_data_Inr_calls [of http url name path w u w'] show ?thesis by auto
  qed
qed

lemma downloads_unfold:
  "for_each (\<lambda>(href, name). download_data http href name path) [OCCUPANCY, CREDIT, CONCRETE] =
     bind_io (download_data http ''http://bit.ly/ddl-occupancy-dataset'' ''occupancy.zip'' path) (\<lambda>_.
     bind_io (download_data http ''http://bit.ly/ddl-credit-dataset'' ''credit.xls'' path) (\<lambda>_.
     bind_io (download_data http ''http://bit.ly/ddl-concrete-data'' ''concrete.xls'' path) (\<lambda>_.
       return_io ())))"
  by (simp add: OCCUPANCY_def CREDIT_def CONCRETE_def)

lemma traces_downloads:
  "traces (for_each (\<lambda>(href, name). download_data http href name path)
             [OCCUPANCY, CREDIT, CONCRETE])
     [Get ''http://bit.ly/ddl-occupancy-dataset'', Open_wb (os_path_join path ''occupancy.zip''),
      Get ''http://bit.ly/ddl-credit-dataset'', Open_wb (os_path_join path ''credit.xls''),
      Get ''http://bit.ly/ddl-concrete-data'', Open_wb (os_path_join path ''concrete.xls'')]"
proof -
  have "traces (bind_io (download_data http ''http://bit.ly/ddl-occupancy-dataset'' ''occupancy.zip'' path) (\<lambda>_.
     bind_io (download_data http ''http://bit.ly/ddl-credit-dataset'' ''credit.xls'' path) (\<lambda>_.
     bind_io (download_data http ''http://bit.ly/ddl-concrete-data'' ''concrete.xls'' path) (\<lambda>_.
       return_io ()))))
    ([Get ''http://bit.ly/ddl-occupancy-dataset'', Open_wb (os_path_join path ''occupancy.zip'')] @
     [Get ''http://bit.ly/ddl-credit-dataset'', Open_wb (os_path_join path ''credit.xls'')] @
     [Get ''http://bit.ly/ddl-concrete-data'', Open_wb (os_path_join path ''concrete.xls'')] @ [])"
    by (intro traces_bind traces_download_data traces_return)
  then show ?thesis unfolding downloads_unfold by simp
qed

text \<open>The end of \<open>download_all\<close>: the archive is opened, then extracted.\<close>

lemma archive_steps:
  assumes "bind_io (zipfile_ZipFile unzip p) (\<lambda>z. extractall z t) w = (r, w')"
  shows "\<exists>new z. calls w' = calls w @ new \<and>
           prefix (filter transfer new) [ZipFile p, Extractall z t] \<and>
           (\<not> isl r \<longrightarrow> new = [ZipFile p, Extractall z t])"
proof -
  obtain r1 w1 where z: "zipfile_ZipFile unzip p w = (r1, w1)" by (cases "zipfile_ZipFile unzip p w")
  from zipfile_ZipFile_world [OF z] have w1: "w1 = log (ZipFile p) w" .
  show ?thesis
  proof (cases r1)
    case (Inl e)
    with assms z have "r = Inl e" "w' = w1" by (simp_all add: bind_io_def)
    then show ?thesis by (intro exI [of _ "[ZipFile p]"]) (simp add: w1)
  next
    case (Inr z)
    with assms \<open>zipfile_ZipFile unzip p w = (r1, w1)\<close> have "extractall z t w1 = (r, w')"
      by (simp add: bind_io_def)
    from extractall_calls [OF this] show ?thesis
      by (intro exI [of _ "[ZipFile p, Extractall z t]"] exI [of _ z]) (simp add: w1)
  qed
qed

lemma download_all_transfers:
  assumes "download_all http unzip path w = (r, w')"
  shows "\<exists>new z. calls w' = calls w @ new \<and>
     prefix (filter transfer new)
       [Get ''http://bit.ly/ddl-occupancy-dataset'', Open_wb (os_path_join path ''occupancy.zip''),
        Get ''http://bit.ly/ddl-credit-dataset'', Open_wb (os_path_join path ''credit.xls''),
        Get ''http://bit.ly/ddl-concrete-data'', Open_wb (os_path_join path ''concrete.xls''),
        ZipFile (os_path_join path ''occupancy.zip''),
        Extractall z (os_path_join path ''occupancy'')]"
proof -
  let ?L = "[Get ''http://bit.ly/ddl-occupancy-dataset'', Open_wb (os_path_join path ''occupancy.zip''),
        Get ''http://bit.ly/ddl-credit-dataset'', Open_wb (os_path_join path ''credit.xls''),
        Get ''http://bit.ly/ddl-concrete-data'', Open_wb (os_path_join path ''concrete.xls'')]"
  let ?ds = "for_each (\<lambda>(href, name). download_data http href name path)
               [OCCUPANCY, CREDIT, CONCRETE]"
  obtain r1 w1 where d: "?ds w = (r1, w1)" by (cases "?ds w")
  from tracesD [OF traces_downloads d] obtain n1 where n1: "calls w1 = calls w @ n1"
    and p1: "prefix (filter transfer n1) ?L" and e1: "\<not> isl r1 \<longrightarrow> filter transfer n1 = ?L"
    by blast
  show ?thesis
  proof (cases r1)
    case (Inl e)
    with assms d have "w' = w1" by (simp add: download_all_def bind_io_def)
    moreover from p1 have "prefix (filter transfer n1) (?L @ [ZipFile (os_path_join path ''occupancy.zip''),
        Extractall [] (os_path_join path ''occupancy'')])"
      by (rule prefix_prefix)
    ultimately show ?thesis using n1 by (intro exI [of _ n1] exI [of _ "[]"]) simp
  next
    case (Inr u)
    with assms d have "bind_io (zipfile_ZipFile unzip (os_path_join path ''occupancy.zip''))
        (\<lambda>z. extractall z (os_path_join path ''occupancy'')) w1 = (r, w')"
      by (simp add: download_all_def bind_io_def)
    from archive_steps [OF this] obtain n2 z where n2: "calls w' = calls w1 @ n2"
      and p2: "prefix (filter transfer n2) [ZipFile (os_path_join path ''occupancy.zip''),
                 Extractall z (os_path_join path ''occupancy'')]"
      by blast
    from Inr e1 have "filter transfer n1 = ?L" by simp
    with n1 n2 p2 show ?thesis
      by (intro exI [of _ "n1 @ n2"] exI [of _ z]) simp
  qed
qed

subsection \<open>Tables\<close>

lemma set_columns_Inr:
  "set_columns names df = Inr df' \<longleftrightarrow>
     length (series df) = length names \<and> df' = df\<lparr>columns := names\<rparr>"
  by (auto simp: set_columns_def)

lemma pd_read_csv_calls:
  "pd_read_csv parse p w = (r, w') \<Longrightarrow> w' = log (Read_csv p) w"
  by (auto simp: pd_read_csv_def bind_io_def read_bytes_def
           split: sum.splits prod.splits option.splits node.splits if_splits)

lemma pd_read_excel_calls:
  "pd_read_excel parse p h w = (r, w') \<Longrightarrow> w' = log (Read_excel p) w"
  by (auto simp: pd_read_excel_def bind_io_def read_bytes_def
           split: sum.splits prod.splits option.splits node.splits if_splits)

lemma locs_occupancy:
  assumes "columns df = occupancy_columns"
  shows "locs df ''date'' = [0]" "locs df ''temp'' = [1]" "locs df ''humid'' = [2]"
    "locs df ''light'' = [3]" "locs df ''co2'' = [4]" "locs df ''hratio'' = [5]"
    "locs df ''occupied'' = [6]"
  by (simp_all add: locs_def assms occupancy_columns_def upt_rec)

lemma separate_renamed:
  assumes c: "columns df = occupancy_columns" and l: "length (series df) = 7"
  shows "separate df =
     Inr (df,
          \<lparr>columns = [''temp'', ''humid'', ''light'', ''co2'', ''hratio''],
           series = take 5 (drop 1 (series df)),
           index = index df\<rparr>,
          Series (last (series df)) (index df))"
proof -
  from l obtain a b c d e f g where s: "series df = [a, b, c, d, e, f, g]"
    by (auto simp: length_Suc_conv eval_nat_numeral)
  show ?thesis
    by (simp add: separate_def getitem_list_def getitem_def locs_occupancy [OF c] s)
       (simp add: c occupancy_columns_def)
qed

subsection \<open>Exceptions of the fetcher\<close>

lemma last_call_raised_from:
  assumes "prefix (calls w) (calls w1)" and "last_call_raised http unzip w1 e w'"
  shows "last_call_raised http unzip w e w'"
proof -
  from assms(1) obtain n where n: "calls w1 = calls w @ n" by (auto simp: prefix_def)
  from assms(2) obtain c w0 pre where "calls w0 = calls w1 @ pre" "calls w' = calls w0 @ [c]"
    "raised http unzip c w0 e w'"
    by (auto simp: last_call_raised_def)
  then show ?thesis
    unfolding last_call_raised_def
    by (intro exI [of _ c] exI [of _ w0] exI [of _ "n @ pre"]) (simp add: n)
qed

lemma bind_io_raised:
  assumes "bind_io m f w = (Inl e, w')"
    and "\<And>e w'. m w = (Inl e, w') \<Longrightarrow> last_call_raised http unzip w e w'"
    and "\<And>x w1. m w = (Inr x, w1) \<Longrightarrow> prefix (calls w) (calls w1)"
    and "\<And>x w1 e w'. m w = (Inr x, w1) \<Longrightarrow> f x w1 = (Inl e, w') \<Longrightarrow>
           last_call_raised http unzip w1 e w'"
  shows "last_call_raised http unzip w e w'"
  using assms(1) unfolding bind_io_Inl
  by (auto intro: assms(2) last_call_raised_from [OF assms(3) assms(4)])

lemma download_data_raised:
  "download_data http url name path w = (Inl e, w') \<Longrightarrow> last_call_raised http unzip w e w'"
  unfolding last_call_raised_def by (drule download_data_Inl [where unzip = unzip]) blast

lemma download_data_grows:
  "download_data http url name path w = (r, w') \<Longrightarrow> prefix (calls w) (calls w')"
  by (drule tracesD [OF traces_download_data]) auto

lemma archive_raised:
  assumes "bind_io (zipfile_ZipFile unzip p) (\<lambda>z. extractall z t) w = (Inl e, w')"
  shows "last_call_raised http unzip w e w'"
  using assms
proof (rule bind_io_raised)
  fix e w' assume a: "zipfile_ZipFile unzip p w = (Inl e, w')"
  from zipfile_ZipFile_world [OF a] have "calls w' = calls w @ [ZipFile p]" by simp
  with a show "last_call_raised http unzip w e w'"
    unfolding last_call_raised_def
    by (intro exI [of _ "ZipFile p"] exI [of _ w] exI [of _ "[]"]) (simp add: raised_simps)
next
  fix x w1 assume "zipfile_ZipFile unzip p w = (Inr x, w1)"
  from zipfile_ZipFile_world [OF this] show "prefix (calls w) (calls w1)" by simp
next
  fix x w1 e w' assume a: "extractall x t w1 = (Inl e, w')"
  from extractall_calls [OF a] a show "last_call_raised http unzip w1 e w'"
    unfolding last_call_raised_def
    by (intro exI [of _ "Extractall x t"] exI [of _ w1] exI [of _ "[]"]) (simp add: raised_simps)
qed

lemma download_all_unfold:
  "download_all http unzip path =
     bind_io (download_data http ''http://bit.ly/ddl-occupancy-dataset'' ''occupancy.zip'' path) (\<lambda>_.
     bind_io (download_data http ''http://bit.ly/ddl-credit-dataset'' ''credit.xls'' path) (\<lambda>_.
     bind_io (download_data http ''http://bit.ly/ddl-concrete-data'' ''concrete.xls'' path) (\<lambda>_.
     bind_io (zipfile_ZipFile unzip (os_path_join path ''occupancy.zip'')) (\<lambda>z.
       extractall z (os_path_join path ''occupancy'')))))"
  unfolding download_all_def downloads_unfold
  by (rule ext) (simp add: bind_io_def return_io_def split: prod.splits sum.splits)

lemma download_all_raised:
  assumes "download_all http unzip path w = (Inl e, w')"
  shows "last_call_raised http unzip w e w'"
  using assms unfolding download_all_unfold
  by (elim bind_io_raised download_data_raised download_data_grows archive_raised)

text \<open>All that a returning download leaves behind.\<close>

lemma download_data_Inr_log:
  assumes "download_data http url name path w = (Inr u, w')"
  shows "\<exists>k body.
      calls w' = calls w @ (if path_exists w path then [Exists path] else [Exists path, Mkdir path])
                   @ [Get url, Open_wb (os_path_join path name), Write k body]
    \<and> http url (length (calls w) + (if path_exists w path then 1 else 2)) = Inr body
    \<and> resolve w' (os_path_join path name) = Inr (k, False)
    \<and> fs w' k = Some (File body)
    \<and> path_exists w' path \<and> cwd w' = cwd w
    \<and> (\<forall>q. fs w q = Some Dir \<longrightarrow> fs w' q = Some Dir)
    \<and> (\<forall>q x. q \<noteq> k \<longrightarrow> fs w q = Some x \<longrightarrow> fs w' q = Some x)"
proof -
  from download_data_Inr [OF assms] obtain wd k body where
    stage: "path_exists w path \<and> wd = log (Exists path) w \<or>
       \<not> path_exists w path \<and> os_mkdir path (log (Exists path) w) = (Inr (), wd)"
    and body: "http url (length (calls wd)) = Inr body"
    and r: "resolve wd (os_path_join path name) = Inr (k, False)"
    and nd: "fs wd k \<noteq> Some Dir"
    and w': "w' = wd\<lparr>calls := calls wd @ [Get url, Open_wb (os_path_join path name), Write k body],
              fs := (fs wd)(k \<mapsto> File body),
              free := free wd + length (content wd k) - length body\<rparr>"
    by blast
  note sf = stage_facts [OF stage]
  have 1: "calls w' = calls w @ (if path_exists w path then [Exists path] else [Exists path, Mkdir path])
                   @ [Get url, Open_wb (os_path_join path name), Write k body]"
    by (simp add: w' sf(3))
  have 2: "http url (length (calls w) + (if path_exists w path then 1 else 2)) = Inr body"
    using body by (cases "path_exists w path") (simp_all add: sf(3))
  have 3: "resolve w' (os_path_join path name) = Inr (k, False)"
    using r by (rule resolve_keeps) (use nd in \<open>auto simp: w'\<close>)
  have 4: "fs w' k = Some (File body)" by (simp add: w')
  have 5: "path_exists w' path"
    using sf(5)
  proof (rule path_exists_keeps)
    show "cwd w' = cwd wd" by (simp add: w')
    show "fs w' q = Some Dir" if "fs wd q = Some Dir" for q
      using that nd by (auto simp: w')
    show "\<exists>c'. fs w' q = Some (File c')" if "fs wd q = Some (File c)" for q c
      using that by (auto simp: w')
  qed
  have 6: "cwd w' = cwd w" by (simp add: w' sf(1))
  have 7: "fs w' q = Some Dir" if "fs w q = Some Dir" for q
    using sf(4) [OF that] nd by (auto simp: w')
  have 8: "fs w' q = Some x" if "q \<noteq> k" "fs w q = Some x" for q x
    using sf(4) [OF that(2)] that(1) by (simp add: w')
  from 1 2 3 4 5 6 7 8 show ?thesis by blast
qed

lemma downloads_Inr:
  assumes "for_each (\<lambda>(href, name). download_data http href name path)
             [OCCUPANCY, CREDIT, CONCRETE] w = (Inr u, w3)"
  shows "\<exists>w1 w2.
     download_data http ''http://bit.ly/ddl-occupancy-dataset'' ''occupancy.zip'' path w = (Inr (), w1) \<and>
     download_data http ''http://bit.ly/ddl-credit-dataset'' ''credit.xls'' path w1 = (Inr (), w2) \<and>
     download_data http ''http://bit.ly/ddl-concrete-data'' ''concrete.xls'' path w2 = (Inr (), w3)"
  using assms unfolding downloads_unfold bind_io_Inr by (auto simp: return_io_def)

lemma plain_names:
  "plain_name ''occupancy.zip''" "plain_name ''credit.xls''" "plain_name ''concrete.xls''"
  "plain_name ''occupancy''"
  by (simp_all add: plain_name_def)

text \<open>Once the directory is there, a download is the request, the opening and the write.\<close>

lemma download_data_tail:
  assumes "path_exists w path \<and> wd = log (Exists path) w \<or>
       \<not> path_exists w path \<and> os_mkdir path (log (Exists path) w) = (Inr (), wd)"
  shows "download_data http url name path w =
     bind_io (requests_get http url) (\<lambda>response.
       bind_io (open_wb (os_path_join path name)) (\<lambda>f. file_write f response)) wd"
  using assms
  by (auto simp: download_data_def bind_io_def os_path_exists_def return_io_def)

lemma download_data_mkdir_raises:
  assumes "\<not> path_exists w path" and "os_mkdir path (log (Exists path) w) = (Inl e, w')"
  shows "download_data http url name path w = (Inl e, w')"
  using assms by (simp add: download_data_def bind_io_def os_path_exists_def)

text \<open>The loop of \<open>download_all\<close>, one download after the other.\<close>

lemma download_all_first:
  "download_all http unzip path w =
     bind_io (download_data http (fst OCCUPANCY) (snd OCCUPANCY) path) (\<lambda>_.
     bind_io (download_data http (fst CREDIT) (snd CREDIT) path) (\<lambda>_.
     bind_io (download_data http (fst CONCRETE) (snd CONCRETE) path) (\<lambda>_.
     bind_io (zipfile_ZipFile unzip (os_path_join path ''occupancy.zip'')) (\<lambda>z.
       extractall z (os_path_join path ''occupancy''))))) w"
  by (simp add: download_all_unfold OCCUPANCY_def CREDIT_def CONCRETE_def)

subsection \<open>Names that are not absolute\<close>










subsection \<open>Pre- and postconditions\<close>

lemma tripleI:
  assumes "\<And>w r w'. P w \<Longrightarrow> m w = (r, w') \<Longrightarrow> (case r of Inl e \<Rightarrow> E w' | Inr x \<Rightarrow> Q x w')"
  shows "triple P m Q E"
  using assms by (auto simp: triple_def)

lemma tripleD:
  "triple P m Q E \<Longrightarrow> P w \<Longrightarrow> m w = (r, w') \<Longrightarrow> (case r of Inl e \<Rightarrow> E w' | Inr x \<Rightarrow> Q x w')"
  by (auto simp: triple_def)

lemma triple_bind:
  assumes "triple P m Q E" and "\<And>x. triple (Q x) (f x) Q' E"
  shows "triple P (bind_io m f) Q' E"
proof (rule tripleI)
  fix w r w'
  assume p: "P w" and b: "bind_io m f w = (r, w')"
  obtain r1 w1 where m: "m w = (r1, w1)" by (cases "m w")
  show "case r of Inl e \<Rightarrow> E w' | Inr x \<Rightarrow> Q' x w'"
  proof (cases r1)
    case (Inl e)
    with b m have "r = Inl e" "w' = w1" by (simp_all add: bind_io_def)
    with tripleD [OF assms(1) p m] Inl show ?thesis by simp
  next
    case (Inr x)
    with b m have "f x w1 = (r, w')" by (simp add: bind_io_def)
    moreover from tripleD [OF assms(1) p m] Inr have "Q x w1" by simp
    ultimately show ?thesis using tripleD [OF assms(2)] by blast
  qed
qed

lemma triple_return: "triple (Q x) (return_io x) Q E"
  by (auto simp: triple_def return_io_def)

lemma triple_for_each:
  assumes "\<And>x. triple I (body x) (\<lambda>_. I) I"
  shows "triple I (for_each body xs) (\<lambda>_. I) I"
  by (induction xs) (auto intro: triple_return triple_bind assms)

lemma only_at_basic:
  "preserves (only_at k) (truncate_key k s)" "preserves (only_at k) (mkdir_at k)"
  by (auto simp: preserves_def only_at_def truncate_key_def mkdir_at_def mkdir_key_def
           split: option.splits node.splits if_splits sum.splits)

text \<open>A write goes to a file that has been opened.\<close>

lemma append_key_only_at:
  "fs w k = Some (File c) \<Longrightarrow> append_key k d w = (r, w') \<Longrightarrow> only_at k w w'"
  by (auto simp: only_at_def append_key_def split: if_splits)

lemma truncate_key_file:
  "truncate_key k s w = (Inr k', w') \<Longrightarrow> k' = k \<and> fs w' k = Some (File [])"
  by (auto simp: truncate_key_def split: option.splits node.splits if_splits)

lemma inside_only_at:
  "inside d c f w \<Longrightarrow> only_at k w w' \<Longrightarrow> prefix d k \<Longrightarrow> inside d c f w'"
  by (auto simp: inside_def only_at_def)

subsection \<open>The fetch stays in the data directory\<close>

lemma resolve_data:
  assumes "resolve w ''data'' = Inr (k, s)"
  shows "k = cwd w @ [''data''] \<and> fs w (cwd w) = Some Dir"
  using assms
  by (auto simp: resolve_def start_def strip_trailing_def step_def norm_step_def
           split: sum.splits option.splits node.splits)

lemma resolve_data_file:
  assumes pl: "plain_name name" and r: "resolve w (os_path_join ''data'' name) = Inr (k, s)"
  shows "k = cwd w @ [''data'', name] \<and> fs w (cwd w @ [''data'']) = Some Dir"
proof -
  from resolve_join_plain [OF pl _ r] obtain kp sp where
    "resolve w ''data'' = Inr (kp, sp)" "fs w kp = Some Dir" "k = kp @ [name]"
    by auto
  with resolve_data [of w kp sp] show ?thesis by simp
qed

lemma triple_exists:
  "triple (inside d c f) (os_path_exists p) (\<lambda>_. inside d c f) (inside d c f)"
  by (auto simp: triple_def os_path_exists_def inside_def)

lemma triple_get:
  "triple (inside d c f) (requests_get http url) (\<lambda>_. inside d c f) (inside d c f)"
  by (auto simp: triple_def requests_get_def inside_def split: sum.splits)

lemma triple_mkdir_data:
  "triple (inside (c @ [''data'']) c f) (os_mkdir ''data'')
     (\<lambda>_. inside (c @ [''data'']) c f) (inside (c @ [''data'']) c f)"
proof (rule tripleI)
  fix w r w'
  assume i: "inside (c @ [''data'']) c f w" and m: "os_mkdir ''data'' w = (r, w')"
  have "inside (c @ [''data'']) c f w'"
  proof (cases "\<exists>k s. resolve w ''data'' = Inr (k, s)")
    case True
    then obtain k s where rs: "resolve w ''data'' = Inr (k, s)" by blast
    from resolve_data [OF rs] i have k: "k = c @ [''data'']" by (simp add: inside_def)
    from m rs have "mkdir_at k (log (Mkdir ''data'') w) = (r, w')"
      by (auto simp: os_mkdir_def mkdir_at_def Let_def split: sum.splits)
    from preservesD [OF only_at_basic(2) this] have "only_at k w w'"
      by (simp add: only_at_def)
    with i show ?thesis by (rule inside_only_at) (simp add: k)
  next
    case False
    with m have "w' = log (Mkdir ''data'') w"
      by (auto simp: os_mkdir_def Let_def split: sum.splits prod.splits)
    with i show ?thesis by (simp add: inside_def)
  qed
  then show "case r of Inl e \<Rightarrow> inside (c @ [''data'']) c f w'
             | Inr x \<Rightarrow> inside (c @ [''data'']) c f w'"
    by (simp split: sum.splits)
qed

lemma triple_open_data:
  assumes pl: "plain_name name"
  shows "triple (inside (c @ [''data'']) c f) (open_wb (os_path_join ''data'' name))
     (\<lambda>k w. inside (c @ [''data'']) c f w \<and> prefix (c @ [''data'']) k \<and> fs w k = Some (File []))
     (inside (c @ [''data'']) c f)"
proof (rule tripleI)
  fix w r w'
  let ?p = "os_path_join ''data'' name"
  assume i: "inside (c @ [''data'']) c f w" and m: "open_wb ?p w = (r, w')"
  show "case r of Inl e \<Rightarrow> inside (c @ [''data'']) c f w'
        | Inr k \<Rightarrow> inside (c @ [''data'']) c f w' \<and> prefix (c @ [''data'']) k \<and>
                   fs w' k = Some (File [])"
  proof (cases "\<exists>k s. resolve w ?p = Inr (k, s)")
    case True
    then obtain k s where rs: "resolve w ?p = Inr (k, s)" by blast
    from resolve_data_file [OF pl rs] i have k: "k = c @ [''data'', name]" by (simp add: inside_def)
    from m rs have t: "truncate_key k s (log (Open_wb ?p) w) = (r, w')"
      by (auto simp: open_wb_def Let_def split: sum.splits)
    from preservesD [OF only_at_basic(1) this] have "only_at k w w'"
      by (simp add: only_at_def)
    with i have "inside (c @ [''data'']) c f w'" by (rule inside_only_at) (simp add: k)
    with t k show ?thesis by (auto split: sum.splits dest: truncate_key_file)
  next
    case False
    with m have "w' = log (Open_wb ?p) w" "isl r"
      by (auto simp: open_wb_def Let_def split: sum.splits prod.splits)
    with i show ?thesis by (auto simp: inside_def split: sum.splits)
  qed
qed

lemma triple_write:
  "triple (\<lambda>w. inside d c f w \<and> prefix d k \<and> fs w k = Some (File []))
     (file_write k b) (\<lambda>_. inside d c f) (inside d c f)"
proof (rule tripleI)
  fix w r w'
  assume p: "inside d c f w \<and> prefix d k \<and> fs w k = Some (File [])"
    and m: "file_write k b w = (r, w')"
  from m have "append_key k b (log (Write k b) w) = (r, w')" by (simp add: file_write_def)
  from append_key_only_at [OF _ this] p have "only_at k w w'" by (simp add: only_at_def)
  with p have "inside d c f w'" by (auto intro: inside_only_at)
  then show "case r of Inl e \<Rightarrow> inside d c f w' | Inr x \<Rightarrow> inside d c f w'"
    by (simp split: sum.splits)
qed

lemma triple_download_data:
  assumes "plain_name name"
  shows "triple (inside (c @ [''data'']) c f) (download_data http url name ''data'')
     (\<lambda>_. inside (c @ [''data'']) c f) (inside (c @ [''data'']) c f)"
  unfolding download_data_def
  by (intro triple_bind [OF triple_exists] triple_bind [OF _ triple_bind [OF triple_get
        triple_bind [OF triple_open_data [OF assms] triple_write]]])
     (auto intro: triple_mkdir_data triple_return)

subsection \<open>The extraction stays in its target\<close>

lemma inside_dir_only_at:
  assumes "inside_dir e x c f w" and "only_at k w w'" and "prefix (e @ [x]) k"
  shows "inside_dir e x c f w'"
proof -
  from assms(1) have i: "inside (e @ [x]) c f w" and dd: "fs w e = Some Dir"
    by (simp_all add: inside_dir_def)
  from i assms(2,3) have "inside (e @ [x]) c f w'" by (rule inside_only_at)
  moreover from assms(2) dd have "fs w' e = Some Dir" by (simp add: only_at_def)
  ultimately show ?thesis by (simp add: inside_dir_def)
qed

text \<open>Directories are made below a directory that exists only.\<close>

lemma makedirs_rev_inside:
  assumes "prefix (e @ [x]) (rev ks)" and "inside_dir e x c f w" and "makedirs_rev ks w = (r, w')"
  shows "inside_dir e x c f w'"
  using assms
proof (induction ks arbitrary: w r w')
  case Nil
  then show ?case by simp
next
  case (Cons y up)
  let ?first = "\<lambda>w. if fs w (rev up) = None then makedirs_rev up w else return_io () w"
  obtain r1 w1 where f: "?first w = (r1, w1)" by (cases "?first w")
  from Cons.prems(1) have py: "prefix (e @ [x]) (rev up @ [y])" by simp
  have j1: "inside_dir e x c f w1"
  proof (cases "fs w (rev up) = None")
    case True
    with Cons.prems(2) have "rev up \<noteq> e" by (auto simp: inside_dir_def)
    with py have pu: "prefix (e @ [x]) (rev up)" by (auto simp: prefix_snoc)
    from f True have "makedirs_rev up w = (r1, w1)" by simp
    with pu Cons.prems(2) show ?thesis by (rule Cons.IH)
  next
    case False
    with f have "w1 = w" by (simp add: return_io_def)
    with Cons.prems(2) show ?thesis by simp
  qed
  from Cons.prems(3) f have
    "r1 = r \<and> w1 = w' \<or> mkdir_at (rev (y # up)) w1 = (r, w')"
    by (auto simp: bind_io_def split: sum.splits)
  then show ?case
  proof
    assume "r1 = r \<and> w1 = w'"
    with j1 show ?thesis by simp
  next
    assume "mkdir_at (rev (y # up)) w1 = (r, w')"
    from preservesD [OF only_at_basic(2) this] have "only_at (rev (y # up)) w1 w'" .
    with j1 show ?thesis using Cons.prems(1) by (rule inside_dir_only_at)
  qed
qed

lemma triple_extract_member:
  "triple (inside_dir e x c f) (extract_member (e @ [x]) m)
     (\<lambda>_. inside_dir e x c f) (inside_dir e x c f)"
proof -
  let ?dest = "(e @ [x]) @ arcname_parts (fst m)"
  let ?J = "inside_dir e x c f"
  have pd: "prefix (e @ [x]) ?dest" by simp
  have 1: "triple ?J (\<lambda>w. if fs w (butlast ?dest) = None
              then makedirs_rev (rev (butlast ?dest)) w else return_io () w) (\<lambda>_. ?J) ?J"
  proof (rule tripleI)
    fix w r w'
    assume j: "?J w"
      and a: "(if fs w (butlast ?dest) = None
               then makedirs_rev (rev (butlast ?dest)) w else return_io () w) = (r, w')"
    have "?J w'"
    proof (cases "fs w (butlast ?dest) = None")
      case True
      from j have "fs w e = Some Dir" by (simp add: inside_dir_def)
      with True have ne: "butlast ?dest \<noteq> e" by auto
      have p: "prefix (e @ [x]) (rev (rev (butlast ?dest)))"
      proof (cases "arcname_parts (fst m)" rule: rev_cases)
        case Nil
        with ne show ?thesis by simp
      next
        case (snoc ps p)
        then have "butlast ?dest = (e @ [x]) @ ps" by (simp add: butlast_append)
        then show ?thesis by simp
      qed
      from a have "makedirs_rev (rev (butlast ?dest)) w = (r, w')"
        by (simp only: if_P [OF True])
      with p j show ?thesis by (rule makedirs_rev_inside)
    next
      case False
      from a have "return_io () w = (r, w')" by (simp only: if_not_P [OF False])
      with j show ?thesis by (simp add: return_io_def)
    qed
    then show "case r of Inl e \<Rightarrow> ?J w' | Inr x \<Rightarrow> ?J w'" by (simp split: sum.splits)
  qed
  have 2: "triple ?J (\<lambda>w. if fs w ?dest = Some Dir then return_io () w else mkdir_at ?dest w)
             (\<lambda>_. ?J) ?J"
  proof (rule tripleI)
    fix w r w'
    assume j: "?J w"
      and a: "(if fs w ?dest = Some Dir then return_io () w else mkdir_at ?dest w) = (r, w')"
    have "?J w'"
    proof (cases "fs w ?dest = Some Dir")
      case True
      from a have "return_io () w = (r, w')" by (simp only: if_P [OF True])
      with j show ?thesis by (simp add: return_io_def)
    next
      case False
      from a have "mkdir_at ?dest w = (r, w')" by (simp only: if_not_P [OF False])
      from preservesD [OF only_at_basic(2) this] have "only_at ?dest w w'" .
      with j show ?thesis using pd by (rule inside_dir_only_at)
    qed
    then show "case r of Inl e \<Rightarrow> ?J w' | Inr x \<Rightarrow> ?J w'" by (simp split: sum.splits)
  qed
  have 3: "triple ?J (truncate_key ?dest False)
             (\<lambda>k w. ?J w \<and> k = ?dest \<and> fs w ?dest = Some (File [])) ?J"
  proof (rule tripleI)
    fix w r w'
    assume j: "?J w" and a: "truncate_key ?dest False w = (r, w')"
    from preservesD [OF only_at_basic(1) a] have "only_at ?dest w w'" .
    with j have "?J w'" using pd by (rule inside_dir_only_at)
    with a show "case r of Inl e \<Rightarrow> ?J w'
                 | Inr k \<Rightarrow> ?J w' \<and> k = ?dest \<and> fs w' ?dest = Some (File [])"
      by (auto split: sum.splits dest: truncate_key_file)
  qed
  have 4: "triple (\<lambda>w. ?J w \<and> k = ?dest \<and> fs w ?dest = Some (File []))
             (case snd m of Inl e \<Rightarrow> raise_io e | Inr b \<Rightarrow> append_key k b) (\<lambda>_. ?J) ?J" for k
  proof (rule tripleI)
    fix w r w'
    assume j: "?J w \<and> k = ?dest \<and> fs w ?dest = Some (File [])"
      and a: "(case snd m of Inl e \<Rightarrow> raise_io e | Inr b \<Rightarrow> append_key k b) w = (r, w')"
    from j have jw: "?J w" and fd: "fs w ?dest = Some (File [])" by simp_all
    have "?J w'"
    proof (cases "snd m")
      case (Inl e)
      with a jw show ?thesis by (simp add: raise_io_def)
    next
      case (Inr b)
      with a j have "append_key ?dest b w = (r, w')" by simp
      with fd have "only_at ?dest w w'" by (rule append_key_only_at)
      with jw show ?thesis using pd by (rule inside_dir_only_at)
    qed
    then show "case r of Inl e \<Rightarrow> ?J w' | Inr x \<Rightarrow> ?J w'" by (simp split: sum.splits)
  qed
  have 5: "triple ?J (if is_dir_name (fst m)
         then (\<lambda>w. if fs w ?dest = Some Dir then return_io () w else mkdir_at ?dest w)
         else bind_io (truncate_key ?dest False)
                (\<lambda>k. case snd m of Inl e \<Rightarrow> raise_io e | Inr b \<Rightarrow> append_key k b))
       (\<lambda>_. ?J) ?J"
    using 2 triple_bind [OF 3 4] by simp
  show ?thesis
    unfolding extract_member_def Let_def by (rule triple_bind [OF 1]) (rule 5)
qed

lemma lexical_data_occupancy:
  "lexical w (os_path_join ''data'' ''occupancy'') = cwd w @ [''data'', ''occupancy'']"
  by (simp add: lexical_def os_path_join_def start_def norm_step_def)

text \<open>The extraction changes nothing outside \<^verbatim>\<open>data/occupancy\<close>, when \<^verbatim>\<open>data\<close> is there.\<close>

lemma extractall_data_inside:
  assumes "fs w (cwd w @ [''data'']) = Some Dir"
    and "extractall z (os_path_join ''data'' ''occupancy'') w = (r, w')"
  shows "inside (cwd w @ [''data'', ''occupancy'']) (cwd w) (fs w) w'"
proof -
  let ?t = "os_path_join ''data'' ''occupancy''"
  let ?J = "inside_dir (cwd w @ [''data'']) ''occupancy'' (cwd w) (fs w)"
  have j1: "?J (log (Extractall z ?t) w)"
    using assms(1) by (simp add: inside_dir_def inside_def)
  have "triple ?J (for_each (extract_member ((cwd w @ [''data'']) @ [''occupancy''])) z)
      (\<lambda>_. ?J) ?J"
    by (intro triple_for_each) (rule triple_extract_member)
  from tripleD [OF this j1] assms(2) have "?J w'"
    by (auto simp: extractall_def lexical_data_occupancy split: sum.splits)
  then show ?thesis by (simp add: inside_dir_def)
qed

lemma inside_trans:
  assumes "inside d c f w" and "inside d' (cwd w) (fs w) w'" and "prefix d d'"
  shows "inside d c f w'"
  using assms unfolding inside_def by (metis prefix_order.trans)

lemma triple_extractall_data:
  "triple (\<lambda>w. inside (c @ [''data'']) c f w \<and> fs w (c @ [''data'']) = Some Dir)
     (extractall z (os_path_join ''data'' ''occupancy''))
     (\<lambda>_. inside (c @ [''data'']) c f) (inside (c @ [''data'']) c f)"
proof (rule tripleI)
  fix w r w'
  assume j: "inside (c @ [''data'']) c f w \<and> fs w (c @ [''data'']) = Some Dir"
    and a: "extractall z (os_path_join ''data'' ''occupancy'') w = (r, w')"
  from j have cw: "cwd w = c" by (simp add: inside_def)
  from j a have "inside (cwd w @ [''data'', ''occupancy'']) (cwd w) (fs w) w'"
    by (intro extractall_data_inside) (simp_all add: cw)
  with j have "inside (c @ [''data'']) c f w'"
    by (rule inside_trans [OF conjunct1]) (simp add: cw)
  then show "case r of Inl e \<Rightarrow> inside (c @ [''data'']) c f w'
             | Inr x \<Rightarrow> inside (c @ [''data'']) c f w'"
    by (simp split: sum.splits)
qed

lemma triple_zipfile_data:
  "triple (inside (c @ [''data'']) c f)
     (zipfile_ZipFile unzip (os_path_join ''data'' ''occupancy.zip''))
     (\<lambda>_ w. inside (c @ [''data'']) c f w \<and> fs w (c @ [''data'']) = Some Dir)
     (inside (c @ [''data'']) c f)"
proof (rule tripleI)
  fix w r w'
  let ?p = "os_path_join ''data'' ''occupancy.zip''"
  assume i: "inside (c @ [''data'']) c f w" and a: "zipfile_ZipFile unzip ?p w = (r, w')"
  from zipfile_ZipFile_world [OF a] have w': "w' = log (ZipFile ?p) w" .
  with i have i': "inside (c @ [''data'']) c f w'" by (simp add: inside_def)
  have "fs w (c @ [''data'']) = Some Dir" if "r = Inr z" for z
  proof -
    from a that obtain k s where "resolve w ?p = Inr (k, s)"
      by (auto simp: zipfile_ZipFile_def bind_io_def read_bytes_def
               split: sum.splits prod.splits)
    from resolve_data_file [OF _ this] i show ?thesis
      by (simp add: plain_name_def inside_def)
  qed
  with i' show "case r of Inl e \<Rightarrow> inside (c @ [''data'']) c f w'
                | Inr z \<Rightarrow> inside (c @ [''data'']) c f w' \<and> fs w' (c @ [''data'']) = Some Dir"
    by (auto simp: w' split: sum.splits)
qed

lemma triple_fetch_cell:
  "triple (inside (c @ [''data'']) c f) (fetch_cell http unzip)
     (\<lambda>_. inside (c @ [''data'']) c f) (inside (c @ [''data'']) c f)"
proof -
  have n: "plain_name ''occupancy.zip''" "plain_name ''credit.xls''" "plain_name ''concrete.xls''"
    by (simp_all add: plain_name_def)
  show ?thesis
    unfolding fetch_cell_def download_all_unfold
    by (rule triple_bind [OF triple_download_data [OF n(1)]],
        rule triple_bind [OF triple_download_data [OF n(2)]],
        rule triple_bind [OF triple_download_data [OF n(3)]],
        rule triple_bind [OF triple_zipfile_data],
        rule triple_extractall_data)
qed

subsection \<open>The figure\<close>

lemma resolve_figure:
  assumes "resolve w ''figures/quadratics.png'' = Inr (k, s)"
  shows "k = cwd w @ [''figures'', ''quadratics.png'']"
  using assms
  by (auto simp: resolve_def start_def strip_trailing_def step_def norm_step_def
           split: sum.splits option.splits node.splits)

lemma quadratics_cell_only_at:
  assumes "quadratics_cell png w = (r, w')"
  shows "only_at (cwd w @ [''figures'', ''quadratics.png'']) w w'"
proof (cases "resolve w ''figures/quadratics.png''")
  case (Inl e)
  with assms have "w' = log (Savefig ''figures/quadratics.png'') w"
    by (simp add: quadratics_cell_def plt_savefig_def Let_def)
  then show ?thesis by (simp add: only_at_def)
next
  case (Inr ks)
  obtain k s where ks: "ks = (k, s)" by (cases ks)
  from resolve_figure [OF Inr [unfolded ks]] have k: "k = cwd w @ [''figures'', ''quadratics.png'']" .
  let ?w1 = "log (Savefig ''figures/quadratics.png'') w"
  from assms Inr ks have b: "bind_io (truncate_key k s) (\<lambda>f. append_key f png) ?w1 = (r, w')"
    by (simp add: quadratics_cell_def plt_savefig_def Let_def)
  obtain r1 w2 where t: "truncate_key k s ?w1 = (r1, w2)" by (cases "truncate_key k s ?w1")
  from preservesD [OF only_at_basic(1) t] have o1: "only_at k w w2" by (simp add: only_at_def)
  show ?thesis
  proof (cases r1)
    case (Inl e)
    with b t have "w' = w2" by (simp add: bind_io_def)
    with o1 k show ?thesis by simp
  next
    case (Inr k')
    with t have kk: "k' = k" "fs w2 k = Some (File [])" by (auto dest: truncate_key_file)
    from b t Inr kk have "append_key k png w2 = (r, w')" by (simp add: bind_io_def)
    with kk(2) have "only_at k w2 w'" by (rule append_key_only_at)
    with o1 show ?thesis unfolding k only_at_def by auto
  qed
qed

subsection \<open>The styles\<close>


subsection \<open>Straight-line cells\<close>



subsection \<open>The calls of a download, however it ends\<close>




subsection \<open>The addresses requested\<close>




subsection \<open>What an extraction keeps and what it leaves\<close>

lemma kept_refl: "kept d w w"
  by (simp add: kept_def)

lemma kept_trans: "kept d w w1 \<Longrightarrow> kept d w1 w2 \<Longrightarrow> kept d w w2"
  by (simp add: kept_def)

lemma only_at_kept: "only_at d w w' \<Longrightarrow> kept d w w'"
  by (simp add: only_at_def kept_def)

lemma mkdir_at_kept: "mkdir_at k w = (r, w') \<Longrightarrow> kept d w w'"
  by (auto simp: mkdir_at_def mkdir_key_def kept_def
           split: sum.splits option.splits node.splits if_splits)

lemma makedirs_rev_kept: "makedirs_rev ks w = (r, w') \<Longrightarrow> kept d w w'"
proof (induction ks arbitrary: w r w')
  case Nil
  then show ?case by (simp add: mkdir_at_kept)
next
  case (Cons c up)
  let ?first = "\<lambda>w. if fs w (rev up) = None then makedirs_rev up w else return_io () w"
  obtain r1 w1 where f: "?first w = (r1, w1)" by (cases "?first w")
  have k1: "kept d w w1"
  proof (cases "fs w (rev up) = None")
    case True
    with f have "makedirs_rev up w = (r1, w1)" by simp
    then show ?thesis by (rule Cons.IH)
  next
    case False
    with f have "w1 = w" by (simp add: return_io_def)
    then show ?thesis by (simp add: kept_refl)
  qed
  from Cons.prems f have "r1 = r \<and> w1 = w' \<or> mkdir_at (rev (c # up)) w1 = (r, w')"
    by (auto simp: bind_io_def split: sum.splits)
  then show ?case
  proof
    assume "r1 = r \<and> w1 = w'"
    with k1 show ?thesis by simp
  next
    assume "mkdir_at (rev (c # up)) w1 = (r, w')"
    then have "kept d w1 w'" by (rule mkdir_at_kept)
    with k1 show ?thesis by (rule kept_trans)
  qed
qed

text \<open>A member is extracted to one entry; every other entry stays, and so does every
  directory.\<close>

lemma extract_member_kept:
  assumes "extract_member base m w = (r, w')"
  shows "kept (base @ arcname_parts (fst m)) w w'"
proof -
  let ?dest = "base @ arcname_parts (fst m)"
  let ?up = "\<lambda>w. if fs w (butlast ?dest) = None
              then makedirs_rev (rev (butlast ?dest)) w else return_io () w"
  let ?rest = "if is_dir_name (fst m)
         then (\<lambda>w. if fs w ?dest = Some Dir then return_io () w else mkdir_at ?dest w)
         else bind_io (truncate_key ?dest False)
                (\<lambda>k. case snd m of Inl e \<Rightarrow> raise_io e | Inr b \<Rightarrow> append_key k b)"
  from assms have a: "bind_io ?up (\<lambda>_. ?rest) w = (r, w')"
    by (simp add: extract_member_def Let_def)
  obtain r1 w1 where u: "?up w = (r1, w1)" by (cases "?up w")
  have k1: "kept ?dest w w1"
  proof (cases "fs w (butlast ?dest) = None")
    case True
    with u have "makedirs_rev (rev (butlast ?dest)) w = (r1, w1)" by simp
    then show ?thesis by (rule makedirs_rev_kept)
  next
    case False
    with u have "w1 = w" by (simp add: return_io_def)
    then show ?thesis by (simp add: kept_refl)
  qed
  from a u have "r1 = r \<and> w1 = w' \<or> ?rest w1 = (r, w')"
    by (auto simp: bind_io_def split: sum.splits)
  then show ?thesis
  proof
    assume "r1 = r \<and> w1 = w'"
    with k1 show ?thesis by simp
  next
    assume b: "?rest w1 = (r, w')"
    have "kept ?dest w1 w'"
    proof (cases "is_dir_name (fst m)")
      case True
      with b have "w' = w1 \<or> mkdir_at ?dest w1 = (r, w')"
        by (auto simp: return_io_def split: if_splits)
      then show ?thesis by (auto simp: kept_refl dest: mkdir_at_kept)
    next
      case False
      with b have c: "bind_io (truncate_key ?dest False)
                (\<lambda>k. case snd m of Inl e \<Rightarrow> raise_io e | Inr b \<Rightarrow> append_key k b) w1 = (r, w')"
        by simp
      obtain r2 w2 where t: "truncate_key ?dest False w1 = (r2, w2)"
        by (cases "truncate_key ?dest False w1")
      from preservesD [OF only_at_basic(1) t] have k2: "kept ?dest w1 w2" by (rule only_at_kept)
      show ?thesis
      proof (cases r2)
        case (Inl e)
        with c t have "w' = w2" by (simp add: bind_io_def)
        with k2 show ?thesis by simp
      next
        case (Inr k)
        with t have kd: "k = ?dest" and fd: "fs w2 ?dest = Some (File [])"
          by (auto dest: truncate_key_file)
        from c t Inr have d: "(case snd m of Inl e \<Rightarrow> raise_io e | Inr b \<Rightarrow> append_key ?dest b) w2
            = (r, w')"
          by (simp add: bind_io_def kd)
        have "kept ?dest w2 w'"
        proof (cases "snd m")
          case (Inl e)
          with d show ?thesis by (simp add: raise_io_def kept_refl)
        next
          case (Inr b)
          with d have "append_key ?dest b w2 = (r, w')" by simp
          with fd have "only_at ?dest w2 w'" by (rule append_key_only_at)
          then show ?thesis by (rule only_at_kept)
        qed
        with k2 show ?thesis by (rule kept_trans)
      qed
    qed
    with k1 show ?thesis by (rule kept_trans)
  qed
qed

text \<open>A file member that is extracted holds its data.\<close>

lemma extract_member_file:
  assumes "extract_member base (n, Inr d) w = (Inr u, w')" and "\<not> is_dir_name n"
  shows "fs w' (base @ arcname_parts n) = Some (File d)"
proof -
  let ?dest = "base @ arcname_parts n"
  from assms obtain w1 k w2 where
    t: "truncate_key ?dest False w1 = (Inr k, w2)" and a: "append_key k d w2 = (Inr u, w')"
    by (auto simp: extract_member_def Let_def bind_io_Inr)
  from truncate_key_file [OF t] have "k = ?dest" "fs w2 ?dest = Some (File [])" by simp_all
  with a show ?thesis by (auto simp: append_key_def content_def split: if_splits)
qed

lemma for_each_append:
  "for_each body (xs @ ys) w = bind_io (for_each body xs) (\<lambda>_. for_each body ys) w"
proof (induction xs arbitrary: w)
  case Nil
  then show ?case by (simp add: bind_io_def return_io_def)
next
  case (Cons x xs)
  then show ?case by (simp add: bind_io_def split: prod.splits sum.splits)
qed

lemma extract_members_keep:
  assumes "for_each (extract_member base) ms w = (r, w')"
    and "\<forall>m\<in>set ms. base @ arcname_parts (fst m) \<noteq> q" and "fs w q = Some y"
  shows "fs w' q = Some y"
  using assms
proof (induction ms arbitrary: w)
  case Nil
  then show ?case by (simp add: return_io_def)
next
  case (Cons m ms)
  obtain r1 w1 where e: "extract_member base m w = (r1, w1)"
    by (cases "extract_member base m w")
  from extract_member_kept [OF e] Cons.prems(2,3) have f1: "fs w1 q = Some y"
    by (auto simp: kept_def)
  show ?case
  proof (cases r1)
    case (Inl x)
    with Cons.prems(1) e have "w' = w1" by (simp add: bind_io_def)
    with f1 show ?thesis by simp
  next
    case (Inr u)
    with Cons.prems(1) e have "for_each (extract_member base) ms w1 = (r, w')"
      by (simp add: bind_io_def)
    moreover from Cons.prems(2) have "\<forall>m\<in>set ms. base @ arcname_parts (fst m) \<noteq> q" by simp
    ultimately show ?thesis using f1 by (rule Cons.IH)
  qed
qed

lemma extract_members_dirs:
  assumes "for_each (extract_member base) ms w = (r, w')"
  shows "cwd w' = cwd w" and "fs w q = Some Dir \<Longrightarrow> fs w' q = Some Dir"
proof -
  have "cwd w' = cwd w \<and> (\<forall>q. fs w q = Some Dir \<longrightarrow> fs w' q = Some Dir)"
    using assms
  proof (induction ms arbitrary: w)
    case Nil
    then show ?case by (simp add: return_io_def)
  next
    case (Cons m ms)
    obtain r1 w1 where e: "extract_member base m w = (r1, w1)"
      by (cases "extract_member base m w")
    from extract_member_kept [OF e]
    have k: "cwd w1 = cwd w \<and> (\<forall>q. fs w q = Some Dir \<longrightarrow> fs w1 q = Some Dir)"
      by (simp add: kept_def)
    show ?case
    proof (cases r1)
      case (Inl x)
      with Cons.prems e have "w' = w1" by (simp add: bind_io_def)
      with k show ?thesis by simp
    next
      case (Inr u)
      with Cons.prems e have "for_each (extract_member base) ms w1 = (r, w')"
        by (simp add: bind_io_def)
      from Cons.IH [OF this] k show ?thesis by simp
    qed
  qed
  then show "cwd w' = cwd w" and "fs w q = Some Dir \<Longrightarrow> fs w' q = Some Dir" by simp_all
qed

text \<open>
  After an extraction that returns, a file member holds its data, unless a later member
  has been extracted to the same place.
\<close>

lemma extractall_member:
  assumes "extractall (pre @ (n, Inr d) # post) t w = (Inr u, w')"
    and "\<not> is_dir_name n"
    and "\<forall>m\<in>set post. arcname_parts (fst m) \<noteq> arcname_parts n"
  shows "fs w' (lexical w t @ arcname_parts n) = Some (File d)"
proof -
  let ?b = "lexical w t"
  let ?w0 = "log (Extractall (pre @ (n, Inr d) # post) t) w"
  from assms(1) have "bind_io (for_each (extract_member ?b) pre)
      (\<lambda>_. for_each (extract_member ?b) ((n, Inr d) # post)) ?w0 = (Inr u, w')"
    by (simp add: extractall_def for_each_append)
  then obtain w1 u2 w2 where
    "extract_member ?b (n, Inr d) w1 = (Inr u2, w2)"
    and p: "for_each (extract_member ?b) post w2 = (Inr u, w')"
    by (auto simp: bind_io_Inr)
  from extract_member_file [OF this(1) assms(2)]
  have "fs w2 (?b @ arcname_parts n) = Some (File d)" .
  moreover from assms(3) have "\<forall>m\<in>set post. ?b @ arcname_parts (fst m) \<noteq> ?b @ arcname_parts n"
    by simp
  ultimately show ?thesis using p by (intro extract_members_keep [OF p]) simp_all
qed

text \<open>An extraction changes nothing outside its target, when the directory of the target
  is there, and removes no directory.\<close>

lemma extractall_inside:
  assumes "lexical w t = e @ [x]" and "fs w e = Some Dir"
    and "extractall z t w = (r, w')"
  shows "inside (e @ [x]) (cwd w) (fs w) w'"
proof -
  let ?J = "inside_dir e x (cwd w) (fs w)"
  have j1: "?J (log (Extractall z t) w)"
    using assms(2) by (simp add: inside_dir_def inside_def)
  have "triple ?J (for_each (extract_member (e @ [x])) z) (\<lambda>_. ?J) ?J"
    by (intro triple_for_each) (rule triple_extract_member)
  from tripleD [OF this j1] assms(1,3) have "?J w'"
    by (auto simp: extractall_def split: sum.splits)
  then show ?thesis by (simp add: inside_dir_def)
qed

lemma extractall_dirs:
  assumes "extractall z t w = (r, w')"
  shows "cwd w' = cwd w" and "fs w q = Some Dir \<Longrightarrow> fs w' q = Some Dir"
  using assms extract_members_dirs [of "lexical w t" z "log (Extractall z t) w" r w']
  by (simp_all add: extractall_def)

subsection \<open>The three files and the archive\<close>

lemma lexical_log: "lexical (log c w) p = lexical w p"
  by (simp add: lexical_def start_def)

text \<open>After the three downloads the directory holds the three files, each with the body
  answered to its request.\<close>

lemma downloads_files:
  assumes d1: "download_data http (fst OCCUPANCY) (snd OCCUPANCY) path w = (Inr (), w1)"
    and d2: "download_data http (fst CREDIT) (snd CREDIT) path w1 = (Inr (), w2)"
    and d3: "download_data http (fst CONCRETE) (snd CONCRETE) path w2 = (Inr (), w3)"
  shows "\<exists>b1 b2 b3 kp sp.
      http (fst OCCUPANCY) (length (calls w) + (if path_exists w path then 1 else 2)) = Inr b1 \<and>
      http (fst CREDIT) (length (calls w1) + 1) = Inr b2 \<and>
      http (fst CONCRETE) (length (calls w2) + 1) = Inr b3 \<and>
      resolve w3 path = Inr (kp, sp) \<and> fs w3 kp = Some Dir \<and>
      resolve w3 (os_path_join path ''occupancy.zip'') = Inr (kp @ [''occupancy.zip''], False) \<and>
      fs w3 (kp @ [''occupancy.zip'']) = Some (File b1) \<and>
      fs w3 (kp @ [''credit.xls'']) = Some (File b2) \<and>
      fs w3 (kp @ [''concrete.xls'']) = Some (File b3) \<and>
      lexical w3 (os_path_join path ''occupancy'') = kp @ [''occupancy'']"
proof -
  let ?pz = "os_path_join path ''occupancy.zip''"
  from download_data_Inr_log [OF d1] obtain k1 b1 where
    h1: "http (fst OCCUPANCY) (length (calls w) + (if path_exists w path then 1 else 2)) = Inr b1"
    and r1: "resolve w1 ?pz = Inr (k1, False)" and f1: "fs w1 k1 = Some (File b1)"
    and e1: "path_exists w1 path"
    by (auto simp: OCCUPANCY_def)
  from e1 have ne: "path \<noteq> []" by (auto simp: path_exists_iff resolve_def)
  from resolve_join_plain [OF plain_names(1) ne r1] obtain kp sp where
    rp1: "resolve w1 path = Inr (kp, sp)" and dp1: "fs w1 kp = Some Dir"
    and k1: "k1 = kp @ [''occupancy.zip'']"
    by blast
  from download_data_Inr_log [OF d2] e1 obtain k2 b2 where
    h2: "http (fst CREDIT) (length (calls w1) + 1) = Inr b2"
    and r2: "resolve w2 (os_path_join path ''credit.xls'') = Inr (k2, False)"
    and f2: "fs w2 k2 = Some (File b2)"
    and e2: "path_exists w2 path"
    and c2: "cwd w2 = cwd w1" and dir2: "\<And>q. fs w1 q = Some Dir \<Longrightarrow> fs w2 q = Some Dir"
    and oth2: "\<And>q x. q \<noteq> k2 \<Longrightarrow> fs w1 q = Some x \<Longrightarrow> fs w2 q = Some x"
    by (auto simp: CREDIT_def)
  have rz2: "resolve w2 ?pz = Inr (k1, False)" using r1 c2 dir2 by (rule resolve_keeps)
  have rp2: "resolve w2 path = Inr (kp, sp)" using rp1 c2 dir2 by (rule resolve_keeps)
  from resolve_join_plain [OF plain_names(2) ne r2] rp2 have k2: "k2 = kp @ [''credit.xls'']"
    by auto
  have z2: "fs w2 k1 = Some (File b1)" using oth2 [OF _ f1] by (simp add: k1 k2)
  from download_data_Inr_log [OF d3] e2 obtain k3 b3 where
    h3: "http (fst CONCRETE) (length (calls w2) + 1) = Inr b3"
    and r3: "resolve w3 (os_path_join path ''concrete.xls'') = Inr (k3, False)"
    and f3: "fs w3 k3 = Some (File b3)"
    and c3: "cwd w3 = cwd w2" and dir3: "\<And>q. fs w2 q = Some Dir \<Longrightarrow> fs w3 q = Some Dir"
    and oth3: "\<And>q x. q \<noteq> k3 \<Longrightarrow> fs w2 q = Some x \<Longrightarrow> fs w3 q = Some x"
    by (auto simp: CONCRETE_def)
  have rz3: "resolve w3 ?pz = Inr (k1, False)" using rz2 c3 dir3 by (rule resolve_keeps)
  have rp3: "resolve w3 path = Inr (kp, sp)" using rp2 c3 dir3 by (rule resolve_keeps)
  from resolve_join_plain [OF plain_names(3) ne r3] rp3 have k3: "k3 = kp @ [''concrete.xls'']"
    by auto
  have z3: "fs w3 k1 = Some (File b1)" using oth3 [OF _ z2] by (simp add: k1 k3)
  have x3: "fs w3 k2 = Some (File b2)" using oth3 [OF _ f2] by (simp add: k2 k3)
  have dp3: "fs w3 kp = Some Dir" using dir3 [OF dir2 [OF dp1]] .
  have lx: "lexical w3 (os_path_join path ''occupancy'') = kp @ [''occupancy'']"
    using plain_names(4) ne rp3 by (rule lexical_join_plain)
  from h1 h2 h3 rp3 dp3 rz3 z3 x3 f3 lx show ?thesis
    unfolding k1 k2 k3 by blast
qed

text \<open>A run of \<open>download_all\<close> that returns: three downloads, then the archive just written
  is decoded and extracted.\<close>

lemma download_all_state:
  assumes "download_all http unzip path w = (Inr (), w')"
  shows "\<exists>w1 w2 w3 b1 b2 b3 z kp sp.
      download_data http (fst OCCUPANCY) (snd OCCUPANCY) path w = (Inr (), w1) \<and>
      download_data http (fst CREDIT) (snd CREDIT) path w1 = (Inr (), w2) \<and>
      download_data http (fst CONCRETE) (snd CONCRETE) path w2 = (Inr (), w3) \<and>
      http (fst OCCUPANCY) (length (calls w) + (if path_exists w path then 1 else 2)) = Inr b1 \<and>
      http (fst CREDIT) (length (calls w1) + 1) = Inr b2 \<and>
      http (fst CONCRETE) (length (calls w2) + 1) = Inr b3 \<and>
      unzip b1 = Inr z \<and>
      extractall z (os_path_join path ''occupancy'')
        (log (ZipFile (os_path_join path ''occupancy.zip'')) w3) = (Inr (), w') \<and>
      resolve w' path = Inr (kp, sp) \<and> fs w' kp = Some Dir \<and>
      fs w' (kp @ [''occupancy.zip'']) = Some (File b1) \<and>
      fs w' (kp @ [''credit.xls'']) = Some (File b2) \<and>
      fs w' (kp @ [''concrete.xls'']) = Some (File b3) \<and>
      (\<forall>k. \<not> prefix (kp @ [''occupancy'']) k \<longrightarrow> fs w' k = fs w3 k) \<and>
      (\<forall>pre n d post.
         z = pre @ (n, Inr d) # post \<and> \<not> is_dir_name n \<and>
         (\<forall>m\<in>set post. arcname_parts (fst m) \<noteq> arcname_parts n) \<longrightarrow>
           fs w' (kp @ ''occupancy'' # arcname_parts n) = Some (File d))"
proof -
  let ?pz = "os_path_join path ''occupancy.zip''"
  let ?t = "os_path_join path ''occupancy''"
  from assms obtain w1 w2 w3 where
    d1: "download_data http (fst OCCUPANCY) (snd OCCUPANCY) path w = (Inr (), w1)" and
    d2: "download_data http (fst CREDIT) (snd CREDIT) path w1 = (Inr (), w2)" and
    d3: "download_data http (fst CONCRETE) (snd CONCRETE) path w2 = (Inr (), w3)" and
    ar: "bind_io (zipfile_ZipFile unzip ?pz) (\<lambda>z. extractall z ?t) w3 = (Inr (), w')"
    by (auto simp: download_all_first bind_io_Inr)
  from downloads_files [OF d1 d2 d3] obtain b1 b2 b3 kp sp where
    h: "http (fst OCCUPANCY) (length (calls w) + (if path_exists w path then 1 else 2)) = Inr b1"
      "http (fst CREDIT) (length (calls w1) + 1) = Inr b2"
      "http (fst CONCRETE) (length (calls w2) + 1) = Inr b3"
    and rp: "resolve w3 path = Inr (kp, sp)" and dp: "fs w3 kp = Some Dir"
    and rz: "resolve w3 ?pz = Inr (kp @ [''occupancy.zip''], False)"
    and f: "fs w3 (kp @ [''occupancy.zip'']) = Some (File b1)"
      "fs w3 (kp @ [''credit.xls'']) = Some (File b2)"
      "fs w3 (kp @ [''concrete.xls'']) = Some (File b3)"
    and lx: "lexical w3 ?t = kp @ [''occupancy'']"
    by blast
  let ?w4 = "log (ZipFile ?pz) w3"
  have zf: "zipfile_ZipFile unzip ?pz w3 = (unzip b1, ?w4)"
    using rz f(1) by (simp add: zipfile_ZipFile_def bind_io_def read_bytes_def)
  with ar obtain z where z: "unzip b1 = Inr z" and ex: "extractall z ?t ?w4 = (Inr (), w')"
    by (auto simp: bind_io_Inr)
  have "inside (kp @ [''occupancy'']) (cwd ?w4) (fs ?w4) w'"
    using _ _ ex by (rule extractall_inside) (simp_all add: lexical_log lx dp)
  then have fr: "fs w' k = fs w3 k" if "\<not> prefix (kp @ [''occupancy'']) k" for k
    using that by (simp add: inside_def)
  note kd = extractall_dirs [OF ex]
  have 1: "resolve w' path = Inr (kp, sp)"
    using rp by (rule resolve_keeps) (use kd in simp_all)
  have 2: "fs w' kp = Some Dir" using dp by (simp add: fr)
  have 3: "fs w' (kp @ [''occupancy.zip'']) = Some (File b1)"
    "fs w' (kp @ [''credit.xls'']) = Some (File b2)"
    "fs w' (kp @ [''concrete.xls'']) = Some (File b3)"
    using f by (simp_all add: fr)
  have 4: "fs w' (kp @ ''occupancy'' # arcname_parts n) = Some (File d)"
    if "z = pre @ (n, Inr d) # post" "\<not> is_dir_name n"
      "\<forall>m\<in>set post. arcname_parts (fst m) \<noteq> arcname_parts n" for pre n d post
  proof -
    from ex that(1) have "extractall (pre @ (n, Inr d) # post) ?t ?w4 = (Inr (), w')" by simp
    from extractall_member [OF this that(2,3)] show ?thesis by (simp add: lexical_log lx)
  qed
  from d1 d2 d3 h z ex 1 2 3 fr 4 show ?thesis by blast
qed

text \<open>The calls of \<open>download_all\<close>, however it ends.\<close>

lemma download_all_log:
  assumes "download_all http unzip path w = (r, w')"
  shows "\<exists>new z. calls w' = calls w @ new \<and>
     prefix (filter transfer new)
       [Get ''http://bit.ly/ddl-occupancy-dataset'', Open_wb (os_path_join path ''occupancy.zip''),
        Get ''http://bit.ly/ddl-credit-dataset'', Open_wb (os_path_join path ''credit.xls''),
        Get ''http://bit.ly/ddl-concrete-data'', Open_wb (os_path_join path ''concrete.xls''),
        ZipFile (os_path_join path ''occupancy.zip''),
        Extractall z (os_path_join path ''occupancy'')] \<and>
     (r = Inr () \<longrightarrow>
        (\<exists>k1 b1 k2 b2 k3 b3.
           new = (if path_exists w path then [Exists path] else [Exists path, Mkdir path]) @
             [Get ''http://bit.ly/ddl-occupancy-dataset'',
              Open_wb (os_path_join path ''occupancy.zip''), Write k1 b1,
              Exists path,
              Get ''http://bit.ly/ddl-credit-dataset'',
              Open_wb (os_path_join path ''credit.xls''), Write k2 b2,
              Exists path,
              Get ''http://bit.ly/ddl-concrete-data'',
              Open_wb (os_path_join path ''concrete.xls''), Write k3 b3,
              ZipFile (os_path_join path ''occupancy.zip''),
              Extractall z (os_path_join path ''occupancy'')]))"
proof (cases r)
  case (Inl e)
  with download_all_transfers [OF assms] show ?thesis by auto
next
  case (Inr u)
  with assms obtain w3 v where
    ds: "for_each (\<lambda>(href, name). download_data http href name path)
           [OCCUPANCY, CREDIT, CONCRETE] w = (Inr v, w3)"
    and ar: "bind_io (zipfile_ZipFile unzip (os_path_join path ''occupancy.zip''))
               (\<lambda>z. extractall z (os_path_join path ''occupancy'')) w3 = (Inr u, w')"
    by (auto simp: download_all_def bind_io_Inr)
  from downloads_Inr [OF ds] obtain w1 w2 where
    d1: "download_data http ''http://bit.ly/ddl-occupancy-dataset'' ''occupancy.zip'' path w = (Inr (), w1)"
    and d2: "download_data http ''http://bit.ly/ddl-credit-dataset'' ''credit.xls'' path w1 = (Inr (), w2)"
    and d3: "download_data http ''http://bit.ly/ddl-concrete-data'' ''concrete.xls'' path w2 = (Inr (), w3)"
    by blast
  from download_data_Inr_log [OF d1] obtain k1 b1 where
    c1: "calls w1 = calls w @ (if path_exists w path then [Exists path] else [Exists path, Mkdir path])
           @ [Get ''http://bit.ly/ddl-occupancy-dataset'',
              Open_wb (os_path_join path ''occupancy.zip''), Write k1 b1]"
    and e1: "path_exists w1 path"
    by blast
  from download_data_Inr_log [OF d2] e1 obtain k2 b2 where
    c2: "calls w2 = calls w1 @ [Exists path] @ [Get ''http://bit.ly/ddl-credit-dataset'',
              Open_wb (os_path_join path ''credit.xls''), Write k2 b2]"
    and e2: "path_exists w2 path"
    by auto
  from download_data_Inr_log [OF d3] e2 obtain k3 b3 where
    c3: "calls w3 = calls w2 @ [Exists path] @ [Get ''http://bit.ly/ddl-concrete-data'',
              Open_wb (os_path_join path ''concrete.xls''), Write k3 b3]"
    by auto
  from archive_steps [OF ar] obtain z where
    c4: "calls w' = calls w3 @ [ZipFile (os_path_join path ''occupancy.zip''),
                               Extractall z (os_path_join path ''occupancy'')]"
    by auto
  let ?new = "(if path_exists w path then [Exists path] else [Exists path, Mkdir path]) @
             [Get ''http://bit.ly/ddl-occupancy-dataset'',
              Open_wb (os_path_join path ''occupancy.zip''), Write k1 b1,
              Exists path,
              Get ''http://bit.ly/ddl-credit-dataset'',
              Open_wb (os_path_join path ''credit.xls''), Write k2 b2,
              Exists path,
              Get ''http://bit.ly/ddl-concrete-data'',
              Open_wb (os_path_join path ''concrete.xls''), Write k3 b3,
              ZipFile (os_path_join path ''occupancy.zip''),
              Extractall z (os_path_join path ''occupancy'')]"
  have "calls w' = calls w @ ?new" by (simp add: c1 c2 c3 c4)
  moreover have "filter transfer ?new =
       [Get ''http://bit.ly/ddl-occupancy-dataset'', Open_wb (os_path_join path ''occupancy.zip''),
        Get ''http://bit.ly/ddl-credit-dataset'', Open_wb (os_path_join path ''credit.xls''),
        Get ''http://bit.ly/ddl-concrete-data'', Open_wb (os_path_join path ''concrete.xls''),
        ZipFile (os_path_join path ''occupancy.zip''),
        Extractall z (os_path_join path ''occupancy'')]"
    by simp
  ultimately show ?thesis
    by (intro exI [of _ ?new] exI [of _ z] conjI impI) simp_all
qed

text \<open>The definitions a concrete run unfolds.\<close>

lemmas run_defs =
  download_data_def bind_io_def return_io_def raise_io_def os_path_exists_def path_exists_def
  resolve_def start_def strip_trailing_def step_def norm_step_def log_def os_mkdir_def
  mkdir_key_def requests_get_def open_wb_def os_path_join_def truncate_key_def file_write_def
  append_key_def content_def read_bytes_def Let_def
  load_occupancy_def load_credit_def load_concrete_def pd_read_csv_def pd_read_excel_def
  set_columns_def occupancy_columns_def credit_columns_def concrete_columns_def
  w_loaded_def parse_two_rows_def parse_sheet_def occupancy_two_rows_def
  download_all_def fetch_cell_def OCCUPANCY_def CREDIT_def CONCRETE_def zipfile_ZipFile_def
  extractall_def extract_member_def lexical_def arcname_parts_def is_dir_name_def mkdir_at_def
  unzip_two_def unzip_none_def w_full_def w_figures_def quadratics_cell_def plt_savefig_def
  styles_cell_def print_io_def
  w_home_def w_data_def w_notes_def w_old_def fs_home_def http_one_def http_all_def
  http_first_def

section \<open>The downloaded file\<close>

text \<open>
  Claim C1. A call of \<open>download_data\<close> that returns has made exactly one HTTP GET, to
  \<open>url\<close>, and the file at \<open>os.path.join(path, name)\<close> then holds the bytes of the answer
  to that request, nothing before them, nothing after them, none of them changed. The
  calls the function has made are the look-up of \<open>path\<close>, possibly \<open>os.mkdir\<close>, the GET,
  the opening of the file and one write of the whole body.
\<close>

theorem download_data_writes_response:
  assumes "download_data http url name path w = (Inr u, w')"
  shows "\<exists>pre k body.
           (pre = [Exists path] \<or> pre = [Exists path, Mkdir path])
         \<and> calls w' = calls w @ pre @ [Get url, Open_wb (os_path_join path name), Write k body]
         \<and> http url (length (calls w @ pre)) = Inr body
         \<and> read_bytes (os_path_join path name) w' = (Inr body, w')"
proof -
  from download_data_Inr [OF assms] obtain wd k body where
    stage: "path_exists w path \<and> wd = log (Exists path) w \<or>
       \<not> path_exists w path \<and> os_mkdir path (log (Exists path) w) = (Inr (), wd)"
    and body: "http url (length (calls wd)) = Inr body"
    and r: "resolve wd (os_path_join path name) = Inr (k, False)"
    and nd: "fs wd k \<noteq> Some Dir"
    and w': "w' = wd\<lparr>calls := calls wd @ [Get url, Open_wb (os_path_join path name), Write k body],
              fs := (fs wd)(k \<mapsto> File body),
              free := free wd + length (content wd k) - length body\<rparr>"
    by blast
  define pre where "pre = (if path_exists w path then [Exists path] else [Exists path, Mkdir path])"
  from stage have c: "calls wd = calls w @ pre"
    by (auto simp: pre_def os_mkdir_Inr)
  have "resolve w' (os_path_join path name) = Inr (k, False)"
    using r by (rule resolve_keeps) (use nd in \<open>auto simp: w'\<close>)
  moreover have "fs w' k = Some (File body)" by (simp add: w')
  ultimately have "read_bytes (os_path_join path name) w' = (Inr body, w')"
    by (simp add: read_bytes_def)
  moreover have "calls w' = calls w @ pre @ [Get url, Open_wb (os_path_join path name), Write k body]"
    by (simp add: w' c)
  moreover have "pre = [Exists path] \<or> pre = [Exists path, Mkdir path]"
    by (simp add: pre_def)
  ultimately show ?thesis using body c by metis
qed

text \<open>In the home directory, with no \<^verbatim>\<open>data\<close> yet, the three bytes of the answer arrive in
  \<^verbatim>\<open>data/f.bin\<close>.\<close>

theorem download_data_writes_response_witness:
  "fst (download_data http_one ''u'' ''f.bin'' ''data'' w_home) = Inr () \<and>
   read_bytes ''data/f.bin'' (snd (download_data http_one ''u'' ''f.bin'' ''data'' w_home)) =
     (Inr [1, 2, 3], snd (download_data http_one ''u'' ''f.bin'' ''data'' w_home))"
proof -
  have run: "fst (download_data http_one ''u'' ''f.bin'' ''data'' w_home) = Inr ()"
    by (simp add: run_defs)
  then have "download_data http_one ''u'' ''f.bin'' ''data'' w_home =
      (Inr (), snd (download_data http_one ''u'' ''f.bin'' ''data'' w_home))"
    by (simp add: prod_eq_iff)
  from download_data_writes_response [OF this] run show ?thesis
    by (auto simp: http_one_def os_path_join_def)
qed

section \<open>The target directory\<close>




section \<open>Downloading twice\<close>

text \<open>
  Claim C9. The file is opened in mode \<^verbatim>\<open>wb\<close>: whatever was in it is gone after a call
  that returns, and the file holds the body alone. A second call for the same
  \<open>url\<close>, \<open>name\<close> and \<open>path\<close>, whose request is answered as the first one was, returns
  too and leaves every file, and the free space, as the first call left them. (The first
  request is made after one or two library calls, the second after one.)
\<close>

theorem download_data_idempotent:
  assumes first: "download_data http url name path w = (Inr u, w1)"
    and same: "http url (length (calls w1) + 1) =
               http url (length (calls w) + (if path_exists w path then 1 else 2))"
  shows "\<exists>body w2.
           http url (length (calls w1) + 1) = Inr body \<and>
           read_bytes (os_path_join path name) w1 = (Inr body, w1) \<and>
           download_data http url name path w1 = (Inr (), w2) \<and>
           read_bytes (os_path_join path name) w2 = (Inr body, w2) \<and>
           fs w2 = fs w1 \<and> free w2 = free w1"
proof -
  from download_data_Inr [OF first] obtain wd k body where
    stage: "path_exists w path \<and> wd = log (Exists path) w \<or>
       \<not> path_exists w path \<and> os_mkdir path (log (Exists path) w) = (Inr (), wd)"
    and body: "http url (length (calls wd)) = Inr body"
    and r: "resolve wd (os_path_join path name) = Inr (k, False)"
    and nd: "fs wd k \<noteq> Some Dir"
    and w1: "w1 = wd\<lparr>calls := calls wd @ [Get url, Open_wb (os_path_join path name), Write k body],
              fs := (fs wd)(k \<mapsto> File body),
              free := free wd + length (content wd k) - length body\<rparr>"
    by blast
  from body same have b2: "http url (Suc (length (calls w1))) = Inr body"
    by (cases "path_exists w path") (simp_all add: stage_facts(3) [OF stage])
  have r1: "resolve w1 (os_path_join path name) = Inr (k, False)"
    using r by (rule resolve_keeps) (use nd in \<open>auto simp: w1\<close>)
  have k1: "fs w1 k = Some (File body)" by (simp add: w1)
  have rd: "read_bytes (os_path_join path name) w1 = (Inr body, w1)"
    using r1 k1 by (simp add: read_bytes_def)
  have ex: "path_exists w1 path"
    using stage_facts(5) [OF stage]
  proof (rule path_exists_keeps)
    show "cwd w1 = cwd wd" by (simp add: w1)
    show "fs w1 q = Some Dir" if "fs wd q = Some Dir" for q
      using that nd by (auto simp: w1)
    show "\<exists>c'. fs w1 q = Some (File c')" if "fs wd q = Some (File c)" for q c
      using that by (auto simp: w1)
  qed
  define w2 where "w2 = w1\<lparr>calls := calls w1 @
      [Exists path, Get url, Open_wb (os_path_join path name), Write k body]\<rparr>"
  have run: "download_data http url name path w1 = (Inr (), w2)"
    using ex r1 k1
    by (simp add: download_data_def bind_io_def os_path_exists_def return_io_def requests_get_def
          b2 open_wb_def truncate_key_def file_write_def append_key_def content_def w2_def log_def
          Let_def fun_upd_idem)
  have same_fs: "fs w2 = fs w1" "free w2 = free w1"
    by (simp_all add: w2_def)
  have "read_bytes (os_path_join path name) w2 = (Inr body, w2)"
    using r1 k1 by (simp add: read_bytes_def w2_def)
  with b2 rd run same_fs show ?thesis by auto
qed

text \<open>Five old bytes in \<^verbatim>\<open>data/f.bin\<close> are replaced by the three of the answer, once and
  again.\<close>

theorem download_data_idempotent_witness:
  "fst (download_data http_one ''u'' ''f.bin'' ''data'' w_old) = Inr () \<and>
   content w_old [''home'', ''data'', ''f.bin''] = [9, 9, 9, 9, 9] \<and>
   (\<exists>w2. read_bytes ''data/f.bin'' (snd (download_data http_one ''u'' ''f.bin'' ''data'' w_old)) =
           (Inr [1, 2, 3], snd (download_data http_one ''u'' ''f.bin'' ''data'' w_old)) \<and>
         download_data http_one ''u'' ''f.bin'' ''data''
           (snd (download_data http_one ''u'' ''f.bin'' ''data'' w_old)) = (Inr (), w2) \<and>
         read_bytes ''data/f.bin'' w2 = (Inr [1, 2, 3], w2))"
proof -
  have run: "fst (download_data http_one ''u'' ''f.bin'' ''data'' w_old) = Inr ()"
    by (simp add: run_defs)
  then have "download_data http_one ''u'' ''f.bin'' ''data'' w_old =
      (Inr (), snd (download_data http_one ''u'' ''f.bin'' ''data'' w_old))"
    by (simp add: prod_eq_iff)
  from download_data_idempotent [OF this] run show ?thesis
    by (auto simp: http_one_def os_path_join_def w_old_def content_def)
qed

section \<open>Loading and renaming\<close>

text \<open>
  Claim C6. Each of the three tables gets its column labels right after it is loaded:
  the cell makes one library call, the read, and the table it ends with is the parsed
  one with the labels replaced by the list of the notebook, whatever they were, and with
  the values of every column and the row labels as parsed. For the occupancy table the
  list is \<^verbatim>\<open>date, temp, humid, light, co2, hratio, occupied\<close>. (A parsed table with another
  number of columns is refused by the assignment, so a cell that ends has parsed as many
  columns as it names.)
\<close>

theorem load_renames_columns:
  "(load_occupancy parse w = (Inr occupancy, w') \<longrightarrow>
      (\<exists>parsed. pd_read_csv parse ''data/occupancy/datatraining.txt'' w = (Inr parsed, w') \<and>
                length (series parsed) = 7 \<and>
                occupancy = parsed\<lparr>columns :=
                  [''date'', ''temp'', ''humid'', ''light'', ''co2'', ''hratio'', ''occupied'']\<rparr> \<and>
                calls w' = calls w @ [Read_csv ''data/occupancy/datatraining.txt''])) \<and>
   (load_credit parse' w = (Inr credit, w') \<longrightarrow>
      (\<exists>parsed. pd_read_excel parse' ''data/credit.xls'' 1 w = (Inr parsed, w') \<and>
                length (series parsed) = 25 \<and>
                credit = parsed\<lparr>columns := credit_columns\<rparr> \<and>
                calls w' = calls w @ [Read_excel ''data/credit.xls''])) \<and>
   (load_concrete parse' w = (Inr concrete, w') \<longrightarrow>
      (\<exists>parsed. pd_read_excel parse' ''data/concrete.xls'' 0 w = (Inr parsed, w') \<and>
                length (series parsed) = 9 \<and>
                concrete = parsed\<lparr>columns := concrete_columns\<rparr> \<and>
                calls w' = calls w @ [Read_excel ''data/concrete.xls'']))"
proof (intro conjI impI)
  assume "load_occupancy parse w = (Inr occupancy, w')"
  then obtain parsed where
    rd: "pd_read_csv parse (os_path_join (os_path_join ''data'' ''occupancy'') ''datatraining.txt'') w
           = (Inr parsed, w')"
    and sc: "set_columns occupancy_columns parsed = Inr occupancy"
    by (auto simp: load_occupancy_def bind_io_Inr)
  have p: "os_path_join (os_path_join ''data'' ''occupancy'') ''datatraining.txt''
             = ''data/occupancy/datatraining.txt''"
    by (simp add: os_path_join_def)
  from sc have "length (series parsed) = 7"
    and "occupancy = parsed\<lparr>columns :=
           [''date'', ''temp'', ''humid'', ''light'', ''co2'', ''hratio'', ''occupied'']\<rparr>"
    by (simp_all add: set_columns_Inr occupancy_columns_def)
  with rd pd_read_csv_calls [OF rd]
  show "\<exists>parsed. pd_read_csv parse ''data/occupancy/datatraining.txt'' w = (Inr parsed, w') \<and>
                length (series parsed) = 7 \<and>
                occupancy = parsed\<lparr>columns :=
                  [''date'', ''temp'', ''humid'', ''light'', ''co2'', ''hratio'', ''occupied'']\<rparr> \<and>
                calls w' = calls w @ [Read_csv ''data/occupancy/datatraining.txt'']"
    unfolding p by auto
next
  assume "load_credit parse' w = (Inr credit, w')"
  then obtain parsed where
    rd: "pd_read_excel parse' (os_path_join ''data'' ''credit.xls'') 1 w = (Inr parsed, w')"
    and sc: "set_columns credit_columns parsed = Inr credit"
    by (auto simp: load_credit_def bind_io_Inr)
  have p: "os_path_join ''data'' ''credit.xls'' = ''data/credit.xls''"
    by (simp add: os_path_join_def)
  from sc have "length (series parsed) = 25" and "credit = parsed\<lparr>columns := credit_columns\<rparr>"
    by (simp_all add: set_columns_Inr credit_columns_def)
  with rd pd_read_excel_calls [OF rd]
  show "\<exists>parsed. pd_read_excel parse' ''data/credit.xls'' 1 w = (Inr parsed, w') \<and>
                length (series parsed) = 25 \<and>
                credit = parsed\<lparr>columns := credit_columns\<rparr> \<and>
                calls w' = calls w @ [Read_excel ''data/credit.xls'']"
    unfolding p by auto
next
  assume "load_concrete parse' w = (Inr concrete, w')"
  then obtain parsed where
    rd: "pd_read_excel parse' (os_path_join ''data'' ''concrete.xls'') 0 w = (Inr parsed, w')"
    and sc: "set_columns concrete_columns parsed = Inr concrete"
    by (auto simp: load_concrete_def bind_io_Inr)
  have p: "os_path_join ''data'' ''concrete.xls'' = ''data/concrete.xls''"
    by (simp add: os_path_join_def)
  from sc have "length (series parsed) = 9" and "concrete = parsed\<lparr>columns := concrete_columns\<rparr>"
    by (simp_all add: set_columns_Inr concrete_columns_def)
  with rd pd_read_excel_calls [OF rd]
  show "\<exists>parsed. pd_read_excel parse' ''data/concrete.xls'' 0 w = (Inr parsed, w') \<and>
                length (series parsed) = 9 \<and>
                concrete = parsed\<lparr>columns := concrete_columns\<rparr> \<and>
                calls w' = calls w @ [Read_excel ''data/concrete.xls'']"
    unfolding p by auto
qed

text \<open>A file whose header says \<^verbatim>\<open>Temperature\<close>, \<^verbatim>\<open>Humidity\<close>, ... yields the table with the
  notebook's labels and the parsed values.\<close>

theorem load_renames_columns_witness:
  "load_occupancy parse_two_rows w_loaded =
     (Inr occupancy_two_rows, log (Read_csv ''data/occupancy/datatraining.txt'') w_loaded) \<and>
   (\<exists>parsed. parse_two_rows [100, 97, 116, 101] = Inr parsed \<and>
             columns parsed \<noteq> columns occupancy_two_rows \<and>
             occupancy_two_rows = parsed\<lparr>columns := columns occupancy_two_rows\<rparr>) \<and>
   load_credit parse_sheet w_loaded =
     (Inr \<lparr>columns = credit_columns, series = replicate 25 [0, 0], index = [0, 1]\<rparr>,
      log (Read_excel ''data/credit.xls'') w_loaded) \<and>
   load_concrete parse_sheet w_loaded =
     (Inr \<lparr>columns = concrete_columns, series = replicate 9 [0, 0], index = [0, 1]\<rparr>,
      log (Read_excel ''data/concrete.xls'') w_loaded)"
proof -
  have 1: "load_occupancy parse_two_rows w_loaded =
     (Inr occupancy_two_rows, log (Read_csv ''data/occupancy/datatraining.txt'') w_loaded)"
    by (simp add: run_defs)
  have 2: "load_credit parse_sheet w_loaded =
     (Inr \<lparr>columns = credit_columns, series = replicate 25 [0, 0], index = [0, 1]\<rparr>,
      log (Read_excel ''data/credit.xls'') w_loaded)"
    by (simp add: run_defs)
  have 3: "load_concrete parse_sheet w_loaded =
     (Inr \<lparr>columns = concrete_columns, series = replicate 9 [0, 0], index = [0, 1]\<rparr>,
      log (Read_excel ''data/concrete.xls'') w_loaded)"
    by (simp add: run_defs)
  from load_renames_columns [THEN conjunct1, THEN mp, OF 1] obtain parsed where
    rd: "pd_read_csv parse_two_rows ''data/occupancy/datatraining.txt'' w_loaded =
          (Inr parsed, log (Read_csv ''data/occupancy/datatraining.txt'') w_loaded)"
    and eq: "occupancy_two_rows = parsed\<lparr>columns :=
                  [''date'', ''temp'', ''humid'', ''light'', ''co2'', ''hratio'', ''occupied'']\<rparr>"
    by blast
  have "pd_read_csv parse_two_rows ''data/occupancy/datatraining.txt'' w_loaded =
          (parse_two_rows [100, 97, 116, 101], log (Read_csv ''data/occupancy/datatraining.txt'') w_loaded)"
    by (simp add: run_defs)
  with rd have p: "parse_two_rows [100, 97, 116, 101] = Inr parsed" by simp
  then have "columns parsed \<noteq> columns occupancy_two_rows"
    by (auto simp: parse_two_rows_def occupancy_two_rows_def)
  moreover from eq have "occupancy_two_rows = parsed\<lparr>columns := columns occupancy_two_rows\<rparr>"
    by (simp add: occupancy_two_rows_def)
  ultimately show ?thesis using 1 2 3 p by blast
qed

section \<open>Features and labels\<close>

text \<open>
  Claim C8. For the occupancy table as loaded, \<open>features\<close> is the table of its second to
  sixth columns, which are the ones labelled \<^verbatim>\<open>temp, humid, light, co2, hratio\<close>, and
  \<open>labels\<close> is its seventh column, the one labelled \<^verbatim>\<open>occupied\<close>; the columns are taken
  whole, with the row labels of the table, and the variable \<open>occupancy\<close> holds after the
  cell what it held before.
\<close>

theorem separate_column_subsets:
  assumes "load_occupancy parse w = (Inr occupancy, w')"
  shows "separate occupancy =
     Inr (occupancy,
          \<lparr>columns = [''temp'', ''humid'', ''light'', ''co2'', ''hratio''],
           series = take 5 (drop 1 (series occupancy)),
           index = index occupancy\<rparr>,
          Series (series occupancy ! 6) (index occupancy)) \<and>
         take 5 (drop 1 (columns occupancy)) = [''temp'', ''humid'', ''light'', ''co2'', ''hratio''] \<and>
         columns occupancy ! 6 = ''occupied'' \<and>
         length (columns occupancy) = 7 \<and> length (series occupancy) = 7"
proof -
  from assms obtain parsed where sc: "set_columns occupancy_columns parsed = Inr occupancy"
    by (auto simp: load_occupancy_def bind_io_Inr)
  then have c: "columns occupancy = occupancy_columns" and l: "length (series occupancy) = 7"
    by (auto simp: set_columns_Inr occupancy_columns_def)
  from l have "last (series occupancy) = series occupancy ! 6"
    by (cases "series occupancy" rule: rev_cases) (auto simp: nth_append)
  with separate_renamed [OF c l] l show ?thesis
    by (simp add: c occupancy_columns_def)
qed

text \<open>The table of two rows, separated.\<close>

theorem separate_column_subsets_witness:
  "fst (load_occupancy parse_two_rows w_loaded) = Inr occupancy_two_rows \<and>
   separate occupancy_two_rows =
     Inr (occupancy_two_rows,
          \<lparr>columns = [''temp'', ''humid'', ''light'', ''co2'', ''hratio''],
           series = [[23, 22], [27, 26], [426, 0], [721, 700], [4, 3]],
           index = [1, 2]\<rparr>,
          Series [1, 0] [1, 2])"
proof -
  have 1: "load_occupancy parse_two_rows w_loaded =
     (Inr occupancy_two_rows, log (Read_csv ''data/occupancy/datatraining.txt'') w_loaded)"
    by (simp add: run_defs)
  from separate_column_subsets [OF 1] 1 show ?thesis
    by (simp add: occupancy_two_rows_def)
qed

section \<open>The three downloads and the archive\<close>

text \<open>
  Claim C2. Whatever \<open>path\<close> is and however the run ends, the requests, the files opened
  for writing and the two archive calls that \<open>download_all\<close> makes are an initial part of
  this list: the occupancy, the credit and the concrete data, each requested and then
  opened under \<open>path\<close> with its file name, then \<^verbatim>\<open>occupancy.zip\<close> under \<open>path\<close> opened as an
  archive and extracted into \<^verbatim>\<open>occupancy\<close> under \<open>path\<close>. So the archive is touched only
  when the three downloads are over. A run that returns has made the whole list: its
  calls are those of three calls of \<open>download_data\<close> with the same \<open>path\<close> (the directory
  is looked for each time, and made at most the first time) followed by the two archive
  calls.

  And a run that returns has done the work: it is three calls of \<open>download_data\<close> that
  return, one per tuple, in the order of the tuples and with the same \<open>path\<close>, each
  starting in the world the one before has left, and then the extraction, into
  \<^verbatim>\<open>occupancy\<close> under \<open>path\<close>, of the members decoded from the body answered to the occupancy
  request. Afterwards \<open>path\<close> is a directory that holds the three files, each with the body
  answered to its request; the extraction has changed nothing outside \<^verbatim>\<open>occupancy\<close>; and
  every file member of the archive lies below \<^verbatim>\<open>occupancy\<close>, under its name made relative,
  with its data, unless a later member has been extracted to the same place.
\<close>

theorem download_all_order:
  assumes "download_all http unzip path w = (r, w')"
  shows "(\<exists>new z. calls w' = calls w @ new \<and>
     prefix (filter transfer new)
       [Get ''http://bit.ly/ddl-occupancy-dataset'', Open_wb (os_path_join path ''occupancy.zip''),
        Get ''http://bit.ly/ddl-credit-dataset'', Open_wb (os_path_join path ''credit.xls''),
        Get ''http://bit.ly/ddl-concrete-data'', Open_wb (os_path_join path ''concrete.xls''),
        ZipFile (os_path_join path ''occupancy.zip''),
        Extractall z (os_path_join path ''occupancy'')] \<and>
     (r = Inr () \<longrightarrow>
        (\<exists>k1 b1 k2 b2 k3 b3.
           new = (if path_exists w path then [Exists path] else [Exists path, Mkdir path]) @
             [Get ''http://bit.ly/ddl-occupancy-dataset'',
              Open_wb (os_path_join path ''occupancy.zip''), Write k1 b1,
              Exists path,
              Get ''http://bit.ly/ddl-credit-dataset'',
              Open_wb (os_path_join path ''credit.xls''), Write k2 b2,
              Exists path,
              Get ''http://bit.ly/ddl-concrete-data'',
              Open_wb (os_path_join path ''concrete.xls''), Write k3 b3,
              ZipFile (os_path_join path ''occupancy.zip''),
              Extractall z (os_path_join path ''occupancy'')]))) \<and>
   (r = Inr () \<longrightarrow>
     (\<exists>w1 w2 w3 b1 b2 b3 z kp sp.
        download_data http (fst OCCUPANCY) (snd OCCUPANCY) path w = (Inr (), w1) \<and>
        download_data http (fst CREDIT) (snd CREDIT) path w1 = (Inr (), w2) \<and>
        download_data http (fst CONCRETE) (snd CONCRETE) path w2 = (Inr (), w3) \<and>
        http (fst OCCUPANCY) (length (calls w) + (if path_exists w path then 1 else 2)) = Inr b1 \<and>
        http (fst CREDIT) (length (calls w1) + 1) = Inr b2 \<and>
        http (fst CONCRETE) (length (calls w2) + 1) = Inr b3 \<and>
        unzip b1 = Inr z \<and>
        extractall z (os_path_join path ''occupancy'')
          (log (ZipFile (os_path_join path ''occupancy.zip'')) w3) = (Inr (), w') \<and>
        resolve w' path = Inr (kp, sp) \<and> fs w' kp = Some Dir \<and>
        fs w' (kp @ [''occupancy.zip'']) = Some (File b1) \<and>
        fs w' (kp @ [''credit.xls'']) = Some (File b2) \<and>
        fs w' (kp @ [''concrete.xls'']) = Some (File b3) \<and>
        (\<forall>k. \<not> prefix (kp @ [''occupancy'']) k \<longrightarrow> fs w' k = fs w3 k) \<and>
        (\<forall>pre n d post.
           z = pre @ (n, Inr d) # post \<and> \<not> is_dir_name n \<and>
           (\<forall>m\<in>set post. arcname_parts (fst m) \<noteq> arcname_parts n) \<longrightarrow>
             fs w' (kp @ ''occupancy'' # arcname_parts n) = Some (File d))))"
proof (rule conjI)
  show "\<exists>new z. calls w' = calls w @ new \<and>
     prefix (filter transfer new)
       [Get ''http://bit.ly/ddl-occupancy-dataset'', Open_wb (os_path_join path ''occupancy.zip''),
        Get ''http://bit.ly/ddl-credit-dataset'', Open_wb (os_path_join path ''credit.xls''),
        Get ''http://bit.ly/ddl-concrete-data'', Open_wb (os_path_join path ''concrete.xls''),
        ZipFile (os_path_join path ''occupancy.zip''),
        Extractall z (os_path_join path ''occupancy'')] \<and>
     (r = Inr () \<longrightarrow>
        (\<exists>k1 b1 k2 b2 k3 b3.
           new = (if path_exists w path then [Exists path] else [Exists path, Mkdir path]) @
             [Get ''http://bit.ly/ddl-occupancy-dataset'',
              Open_wb (os_path_join path ''occupancy.zip''), Write k1 b1,
              Exists path,
              Get ''http://bit.ly/ddl-credit-dataset'',
              Open_wb (os_path_join path ''credit.xls''), Write k2 b2,
              Exists path,
              Get ''http://bit.ly/ddl-concrete-data'',
              Open_wb (os_path_join path ''concrete.xls''), Write k3 b3,
              ZipFile (os_path_join path ''occupancy.zip''),
              Extractall z (os_path_join path ''occupancy'')]))"
    using assms by (rule download_all_log)
next
  show "(r = Inr () \<longrightarrow>
     (\<exists>w1 w2 w3 b1 b2 b3 z kp sp.
        download_data http (fst OCCUPANCY) (snd OCCUPANCY) path w = (Inr (), w1) \<and>
        download_data http (fst CREDIT) (snd CREDIT) path w1 = (Inr (), w2) \<and>
        download_data http (fst CONCRETE) (snd CONCRETE) path w2 = (Inr (), w3) \<and>
        http (fst OCCUPANCY) (length (calls w) + (if path_exists w path then 1 else 2)) = Inr b1 \<and>
        http (fst CREDIT) (length (calls w1) + 1) = Inr b2 \<and>
        http (fst CONCRETE) (length (calls w2) + 1) = Inr b3 \<and>
        unzip b1 = Inr z \<and>
        extractall z (os_path_join path ''occupancy'')
          (log (ZipFile (os_path_join path ''occupancy.zip'')) w3) = (Inr (), w') \<and>
        resolve w' path = Inr (kp, sp) \<and> fs w' kp = Some Dir \<and>
        fs w' (kp @ [''occupancy.zip'']) = Some (File b1) \<and>
        fs w' (kp @ [''credit.xls'']) = Some (File b2) \<and>
        fs w' (kp @ [''concrete.xls'']) = Some (File b3) \<and>
        (\<forall>k. \<not> prefix (kp @ [''occupancy'']) k \<longrightarrow> fs w' k = fs w3 k) \<and>
        (\<forall>pre n d post.
           z = pre @ (n, Inr d) # post \<and> \<not> is_dir_name n \<and>
           (\<forall>m\<in>set post. arcname_parts (fst m) \<noteq> arcname_parts n) \<longrightarrow>
             fs w' (kp @ ''occupancy'' # arcname_parts n) = Some (File d))))"
  proof
    assume "r = Inr ()"
    with assms have "download_all http unzip path w = (Inr (), w')" by simp
    then show "\<exists>w1 w2 w3 b1 b2 b3 z kp sp.
        download_data http (fst OCCUPANCY) (snd OCCUPANCY) path w = (Inr (), w1) \<and>
        download_data http (fst CREDIT) (snd CREDIT) path w1 = (Inr (), w2) \<and>
        download_data http (fst CONCRETE) (snd CONCRETE) path w2 = (Inr (), w3) \<and>
        http (fst OCCUPANCY) (length (calls w) + (if path_exists w path then 1 else 2)) = Inr b1 \<and>
        http (fst CREDIT) (length (calls w1) + 1) = Inr b2 \<and>
        http (fst CONCRETE) (length (calls w2) + 1) = Inr b3 \<and>
        unzip b1 = Inr z \<and>
        extractall z (os_path_join path ''occupancy'')
          (log (ZipFile (os_path_join path ''occupancy.zip'')) w3) = (Inr (), w') \<and>
        resolve w' path = Inr (kp, sp) \<and> fs w' kp = Some Dir \<and>
        fs w' (kp @ [''occupancy.zip'']) = Some (File b1) \<and>
        fs w' (kp @ [''credit.xls'']) = Some (File b2) \<and>
        fs w' (kp @ [''concrete.xls'']) = Some (File b3) \<and>
        (\<forall>k. \<not> prefix (kp @ [''occupancy'']) k \<longrightarrow> fs w' k = fs w3 k) \<and>
        (\<forall>pre n d post.
           z = pre @ (n, Inr d) # post \<and> \<not> is_dir_name n \<and>
           (\<forall>m\<in>set post. arcname_parts (fst m) \<noteq> arcname_parts n) \<longrightarrow>
             fs w' (kp @ ''occupancy'' # arcname_parts n) = Some (File d))"
      by (rule download_all_state)
  qed
qed

text \<open>From the home directory, with every address answering and an archive of two members:
  the three files hold the two bytes answered, and the first member is extracted.\<close>

theorem download_all_order_witness:
  "fst (download_all http_all unzip_two ''data'' w_home) = Inr () \<and>
   (\<exists>new z. calls (snd (download_all http_all unzip_two ''data'' w_home)) = calls w_home @ new \<and>
      filter transfer new =
       [Get ''http://bit.ly/ddl-occupancy-dataset'', Open_wb ''data/occupancy.zip'',
        Get ''http://bit.ly/ddl-credit-dataset'', Open_wb ''data/credit.xls'',
        Get ''http://bit.ly/ddl-concrete-data'', Open_wb ''data/concrete.xls'',
        ZipFile ''data/occupancy.zip'', Extractall z ''data/occupancy'']) \<and>
   fs (snd (download_all http_all unzip_two ''data'' w_home)) [''home'', ''data''] = Some Dir \<and>
   fs (snd (download_all http_all unzip_two ''data'' w_home)) [''home'', ''data'', ''occupancy.zip'']
     = Some (File [80, 75]) \<and>
   fs (snd (download_all http_all unzip_two ''data'' w_home)) [''home'', ''data'', ''credit.xls'']
     = Some (File [80, 75]) \<and>
   fs (snd (download_all http_all unzip_two ''data'' w_home)) [''home'', ''data'', ''concrete.xls'']
     = Some (File [80, 75]) \<and>
   fs (snd (download_all http_all unzip_two ''data'' w_home))
     [''home'', ''data'', ''occupancy'', ''datatraining.txt''] = Some (File [100, 97])"
proof -
  let ?w' = "snd (download_all http_all unzip_two ''data'' w_home)"
  have run: "fst (download_all http_all unzip_two ''data'' w_home) = Inr ()"
    by (simp add: run_defs)
  then have eq: "download_all http_all unzip_two ''data'' w_home = (Inr (), ?w')"
    by (simp add: prod_eq_iff)
  note t = download_all_order [OF eq]
  from t [THEN conjunct1] obtain new z where
    "calls ?w' = calls w_home @ new"
    "\<exists>k1 b1 k2 b2 k3 b3.
           new = (if path_exists w_home ''data'' then [Exists ''data''] else [Exists ''data'', Mkdir ''data'']) @
             [Get ''http://bit.ly/ddl-occupancy-dataset'',
              Open_wb (os_path_join ''data'' ''occupancy.zip''), Write k1 b1,
              Exists ''data'',
              Get ''http://bit.ly/ddl-credit-dataset'',
              Open_wb (os_path_join ''data'' ''credit.xls''), Write k2 b2,
              Exists ''data'',
              Get ''http://bit.ly/ddl-concrete-data'',
              Open_wb (os_path_join ''data'' ''concrete.xls''), Write k3 b3,
              ZipFile (os_path_join ''data'' ''occupancy.zip''),
              Extractall z (os_path_join ''data'' ''occupancy'')]"
    by blast
  then have A: "\<exists>new z. calls ?w' = calls w_home @ new \<and>
      filter transfer new =
       [Get ''http://bit.ly/ddl-occupancy-dataset'', Open_wb ''data/occupancy.zip'',
        Get ''http://bit.ly/ddl-credit-dataset'', Open_wb ''data/credit.xls'',
        Get ''http://bit.ly/ddl-concrete-data'', Open_wb ''data/concrete.xls'',
        ZipFile ''data/occupancy.zip'', Extractall z ''data/occupancy'']"
    by (intro exI [of _ new] exI [of _ z]) (auto simp: os_path_join_def)
  from t [THEN conjunct2, THEN mp, OF refl] obtain b1 b2 b3 z kp sp and n1 n2 n3 :: nat where
    h: "http_all (fst OCCUPANCY) n1 = Inr b1" "http_all (fst CREDIT) n2 = Inr b2"
      "http_all (fst CONCRETE) n3 = Inr b3"
    and z: "unzip_two b1 = Inr z"
    and rp: "resolve ?w' ''data'' = Inr (kp, sp)" and dp: "fs ?w' kp = Some Dir"
    and f: "fs ?w' (kp @ [''occupancy.zip'']) = Some (File b1)"
      "fs ?w' (kp @ [''credit.xls'']) = Some (File b2)"
      "fs ?w' (kp @ [''concrete.xls'']) = Some (File b3)"
    and m: "\<And>pre n d post.
           z = pre @ (n, Inr d) # post \<and> \<not> is_dir_name n \<and>
           (\<forall>m\<in>set post. arcname_parts (fst m) \<noteq> arcname_parts n) \<Longrightarrow>
             fs ?w' (kp @ ''occupancy'' # arcname_parts n) = Some (File d)"
    by blast
  from h have b: "b1 = [80, 75]" "b2 = [80, 75]" "b3 = [80, 75]" by (simp_all add: http_all_def)
  have "resolve ?w' ''data'' = Inr ([''home'', ''data''], False)" by (simp add: run_defs)
  with rp have kp: "kp = [''home'', ''data'']" by simp
  from z b have zz: "z = [] @ (''datatraining.txt'', Inr [100, 97]) # [(''sub/../../evil.txt'', Inr [1])]"
    by (simp add: unzip_two_def)
  have "fs ?w' (kp @ ''occupancy'' # arcname_parts ''datatraining.txt'') = Some (File [100, 97])"
    by (rule m [of "[]" "''datatraining.txt''" "[100, 97]" "[(''sub/../../evil.txt'', Inr [1])]"])
       (simp add: zz is_dir_name_def arcname_parts_def)
  then have B: "fs ?w' [''home'', ''data'', ''occupancy'', ''datatraining.txt''] = Some (File [100, 97])"
    by (simp add: kp arcname_parts_def)
  from run A dp f B show ?thesis by (simp add: kp b)
qed

text \<open>
  Claim C10. The file name in \<open>OCCUPANCY\<close> and the name opened as an archive are the same
  literal. Once the three downloads have returned, the directory \<open>path\<close> holds the file
  \<^verbatim>\<open>occupancy.zip\<close>, whose bytes are the body answered to the first request (the two later
  downloads have not touched it), these are the bytes \<^verbatim>\<open>ZipFile\<close> decodes, and the
  extraction target is the entry \<^verbatim>\<open>occupancy\<close> of the same directory.
\<close>

theorem archive_is_the_download:
  assumes "for_each (\<lambda>(href, name). download_data http href name path)
             [OCCUPANCY, CREDIT, CONCRETE] w = (Inr u, w3)"
  shows "snd OCCUPANCY = ''occupancy.zip'' \<and>
    (\<exists>body kp sp.
       http (fst OCCUPANCY) (length (calls w) + (if path_exists w path then 1 else 2)) = Inr body \<and>
       zipfile_ZipFile unzip (os_path_join path ''occupancy.zip'') w3 =
         (unzip body, log (ZipFile (os_path_join path ''occupancy.zip'')) w3) \<and>
       resolve w3 path = Inr (kp, sp) \<and> fs w3 kp = Some Dir \<and>
       resolve w3 (os_path_join path (snd OCCUPANCY)) = Inr (kp @ [''occupancy.zip''], False) \<and>
       fs w3 (kp @ [''occupancy.zip'']) = Some (File body) \<and>
       lexical w3 (os_path_join path ''occupancy'') = kp @ [''occupancy''] \<and>
       download_all http unzip path w =
         (case unzip body of
            Inl e \<Rightarrow> (Inl e, log (ZipFile (os_path_join path ''occupancy.zip'')) w3)
          | Inr z \<Rightarrow> extractall z (os_path_join path ''occupancy'')
                      (log (ZipFile (os_path_join path ''occupancy.zip'')) w3)))"
proof -
  from downloads_Inr [OF assms] obtain w1 w2 where
    d1: "download_data http ''http://bit.ly/ddl-occupancy-dataset'' ''occupancy.zip'' path w = (Inr (), w1)"
    and d2: "download_data http ''http://bit.ly/ddl-credit-dataset'' ''credit.xls'' path w1 = (Inr (), w2)"
    and d3: "download_data http ''http://bit.ly/ddl-concrete-data'' ''concrete.xls'' path w2 = (Inr (), w3)"
    by blast
  let ?pz = "os_path_join path ''occupancy.zip''"
  from download_data_Inr_log [OF d1] obtain k1 body where
    b: "http ''http://bit.ly/ddl-occupancy-dataset''
          (length (calls w) + (if path_exists w path then 1 else 2)) = Inr body"
    and r1: "resolve w1 ?pz = Inr (k1, False)" and f1: "fs w1 k1 = Some (File body)"
    and e1: "path_exists w1 path"
    by blast
  from e1 have ne: "path \<noteq> []" by (auto simp: path_exists_iff resolve_def)
  from resolve_join_plain [OF plain_names(1) ne r1] obtain kp sp where
    rp1: "resolve w1 path = Inr (kp, sp)" and dp1: "fs w1 kp = Some Dir"
    and k1: "k1 = kp @ [''occupancy.zip'']"
    by blast
  from download_data_Inr_log [OF d2] obtain k2 where
    r2: "resolve w2 (os_path_join path ''credit.xls'') = Inr (k2, False)"
    and c2: "cwd w2 = cwd w1" and dir2: "\<And>q. fs w1 q = Some Dir \<Longrightarrow> fs w2 q = Some Dir"
    and oth2: "\<And>q x. q \<noteq> k2 \<Longrightarrow> fs w1 q = Some x \<Longrightarrow> fs w2 q = Some x"
    by blast
  from resolve_join_plain [OF plain_names(2) ne r2] have "last k2 = ''credit.xls''" by auto
  with k1 have n12: "k1 \<noteq> k2" by auto
  have rz2: "resolve w2 ?pz = Inr (k1, False)" using r1 c2 dir2 by (rule resolve_keeps)
  have rp2: "resolve w2 path = Inr (kp, sp)" using rp1 c2 dir2 by (rule resolve_keeps)
  have f2: "fs w2 k1 = Some (File body)" using oth2 [OF n12 f1] .
  from download_data_Inr_log [OF d3] obtain k3 where
    r3: "resolve w3 (os_path_join path ''concrete.xls'') = Inr (k3, False)"
    and c3: "cwd w3 = cwd w2" and dir3: "\<And>q. fs w2 q = Some Dir \<Longrightarrow> fs w3 q = Some Dir"
    and oth3: "\<And>q x. q \<noteq> k3 \<Longrightarrow> fs w2 q = Some x \<Longrightarrow> fs w3 q = Some x"
    by blast
  from resolve_join_plain [OF plain_names(3) ne r3] have "last k3 = ''concrete.xls''" by auto
  with k1 have n13: "k1 \<noteq> k3" by auto
  have rz3: "resolve w3 ?pz = Inr (k1, False)" using rz2 c3 dir3 by (rule resolve_keeps)
  have rp3: "resolve w3 path = Inr (kp, sp)" using rp2 c3 dir3 by (rule resolve_keeps)
  have f3: "fs w3 k1 = Some (File body)" using oth3 [OF n13 f2] .
  have dp3: "fs w3 kp = Some Dir" using dir3 [OF dir2 [OF dp1]] .
  have z: "zipfile_ZipFile unzip ?pz w3 = (unzip body, log (ZipFile ?pz) w3)"
    using rz3 f3 by (simp add: zipfile_ZipFile_def bind_io_def read_bytes_def)
  have "download_all http unzip path w =
         (case unzip body of
            Inl e \<Rightarrow> (Inl e, log (ZipFile ?pz) w3)
          | Inr z \<Rightarrow> extractall z (os_path_join path ''occupancy'') (log (ZipFile ?pz) w3))"
    using assms z by (simp add: download_all_def bind_io_def split: sum.splits)
  moreover note z
  moreover have "lexical w3 (os_path_join path ''occupancy'') = kp @ [''occupancy'']"
    using plain_names(4) ne rp3 by (rule lexical_join_plain)
  ultimately show ?thesis
    using b rz3 rp3 f3 dp3 by (simp add: OCCUPANCY_def k1)
qed

text \<open>The two bytes answered for the occupancy address are the ones decoded.\<close>

theorem archive_is_the_download_witness:
  "fst (for_each (\<lambda>(href, name). download_data http_all href name ''data'')
          [OCCUPANCY, CREDIT, CONCRETE] w_home) = Inr () \<and>
   (\<exists>body. http_all (fst OCCUPANCY) 2 = Inr body \<and>
      fst (zipfile_ZipFile unzip_two ''data/occupancy.zip''
        (snd (for_each (\<lambda>(href, name). download_data http_all href name ''data'')
          [OCCUPANCY, CREDIT, CONCRETE] w_home))) = unzip_two body)"
proof -
  let ?w3 = "snd (for_each (\<lambda>(href, name). download_data http_all href name ''data'')
          [OCCUPANCY, CREDIT, CONCRETE] w_home)"
  have run: "fst (for_each (\<lambda>(href, name). download_data http_all href name ''data'')
          [OCCUPANCY, CREDIT, CONCRETE] w_home) = Inr ()"
    by (simp add: run_defs)
  then have "for_each (\<lambda>(href, name). download_data http_all href name ''data'')
          [OCCUPANCY, CREDIT, CONCRETE] w_home = (Inr (), ?w3)"
    by (simp add: prod_eq_iff)
  from archive_is_the_download [OF this, of unzip_two] obtain body where
    "http_all (fst OCCUPANCY) (length (calls w_home) + (if path_exists w_home ''data'' then 1 else 2))
       = Inr body"
    "zipfile_ZipFile unzip_two (os_path_join ''data'' ''occupancy.zip'') ?w3 =
         (unzip_two body, log (ZipFile (os_path_join ''data'' ''occupancy.zip'')) ?w3)"
    by blast
  moreover have "os_path_join ''data'' ''occupancy.zip'' = ''data/occupancy.zip''"
    by (simp add: os_path_join_def)
  moreover have "length (calls w_home) + (if path_exists w_home ''data'' then 1 else 2) = 2"
    by (simp add: run_defs)
  ultimately show ?thesis using run by auto
qed

section \<open>Exceptions\<close>

text \<open>
  Claim C4. Every exception of a library call ends the fetcher, with that exception and
  with the world as the call left it: nothing is caught, repeated or cleaned up.

  For \<open>download_data\<close>: an exception of \<^verbatim>\<open>os.mkdir\<close> ends the call; once the directory has
  been looked for and, if missing, made, an exception of the request, of the opening of
  the file or of the write ends the call. In particular a request that fails ends it
  before any file is opened, and a body that does not fit on the disk ends it with the
  exception of the write, the part that fitted staying in the file.

  For \<open>download_all\<close>: an exception of the first, the second or the third download ends the
  run (so does, spelled out for the tuple \<open>t\<close> the loop has reached, a failing request,
  opening or write inside that download), and an archive that cannot be opened or
  extracted ends it with the exception of \<^verbatim>\<open>ZipFile\<close> or of \<^verbatim>\<open>extractall\<close>.

  Conversely, when \<open>download_data\<close> or \<open>download_all\<close> raises, the exception is the one a
  library call raised, and that call is the last one made.
\<close>

theorem failures_propagate:
  "(download_data http url name path w = (Inl e, w') \<longrightarrow> last_call_raised http unzip w e w') \<and>
   (download_all http unzip path w = (Inl e, w') \<longrightarrow> last_call_raised http unzip w e w') \<and>
   (\<not> path_exists w path \<and> os_mkdir path (log (Exists path) w) = (Inl e, w') \<longrightarrow>
      download_data http url name path w = (Inl e, w')) \<and>
   (path_exists w path \<and> wd = log (Exists path) w \<or>
    \<not> path_exists w path \<and> os_mkdir path (log (Exists path) w) = (Inr (), wd) \<longrightarrow>
      (requests_get http url wd = (Inl e, w') \<longrightarrow>
         download_data http url name path w = (Inl e, w')) \<and>
      (requests_get http url wd = (Inr body, w2) \<and>
       open_wb (os_path_join path name) w2 = (Inl e, w') \<longrightarrow>
         download_data http url name path w = (Inl e, w')) \<and>
      (requests_get http url wd = (Inr body, w2) \<and>
       open_wb (os_path_join path name) w2 = (Inr k, w3) \<and>
       file_write k body w3 = (Inl e, w') \<longrightarrow>
         download_data http url name path w = (Inl e, w'))) \<and>
   (path_exists w path \<and> http url (length (calls w) + 1) = Inl e \<longrightarrow>
      download_data http url name path w = (Inl e, log (Get url) (log (Exists path) w))) \<and>
   (path_exists w path \<and> http url (length (calls w) + 1) = Inr body \<and>
    open_wb (os_path_join path name) (log (Get url) (log (Exists path) w)) = (Inr k, w4) \<and>
    free w4 < length body \<longrightarrow>
      (\<exists>w5. download_data http url name path w = (Inl NoSpaceError, w5) \<and>
            fs w5 k = Some (File (take (free w4) body)))) \<and>
   (download_data http (fst OCCUPANCY) (snd OCCUPANCY) path w = (Inl e, w') \<longrightarrow>
      download_all http unzip path w = (Inl e, w')) \<and>
   (download_data http (fst OCCUPANCY) (snd OCCUPANCY) path w = (Inr u, w1) \<and>
    download_data http (fst CREDIT) (snd CREDIT) path w1 = (Inl e, w') \<longrightarrow>
      download_all http unzip path w = (Inl e, w')) \<and>
   (download_data http (fst OCCUPANCY) (snd OCCUPANCY) path w = (Inr u, w1) \<and>
    download_data http (fst CREDIT) (snd CREDIT) path w1 = (Inr u, w2) \<and>
    download_data http (fst CONCRETE) (snd CONCRETE) path w2 = (Inl e, w') \<longrightarrow>
      download_all http unzip path w = (Inl e, w')) \<and>
   (for_each (\<lambda>(href, name). download_data http href name path)
      [OCCUPANCY, CREDIT, CONCRETE] w = (Inr u, w3) \<and>
    zipfile_ZipFile unzip (os_path_join path ''occupancy.zip'') w3 = (Inl e, w4) \<longrightarrow>
      download_all http unzip path w = (Inl e, w4)) \<and>
   (for_each (\<lambda>(href, name). download_data http href name path)
      [OCCUPANCY, CREDIT, CONCRETE] w = (Inr u, w3) \<and>
    zipfile_ZipFile unzip (os_path_join path ''occupancy.zip'') w3 = (Inr z, w4) \<and>
    extractall z (os_path_join path ''occupancy'') w4 = (Inl e, w5) \<longrightarrow>
      download_all http unzip path w = (Inl e, w5)) \<and>
   ((t = OCCUPANCY \<and> wi = w \<or>
     t = CREDIT \<and> download_data http (fst OCCUPANCY) (snd OCCUPANCY) path w = (Inr u, wi) \<or>
     t = CONCRETE \<and>
       (\<exists>w1. download_data http (fst OCCUPANCY) (snd OCCUPANCY) path w = (Inr u, w1) \<and>
             download_data http (fst CREDIT) (snd CREDIT) path w1 = (Inr u, wi))) \<and>
    (path_exists wi path \<and> wj = log (Exists path) wi \<or>
     \<not> path_exists wi path \<and> os_mkdir path (log (Exists path) wi) = (Inr (), wj)) \<and>
    (requests_get http (fst t) wj = (Inl e, w') \<or>
     requests_get http (fst t) wj = (Inr body, w2) \<and>
       open_wb (os_path_join path (snd t)) w2 = (Inl e, w') \<or>
     requests_get http (fst t) wj = (Inr body, w2) \<and>
       open_wb (os_path_join path (snd t)) w2 = (Inr k, w3) \<and>
       file_write k body w3 = (Inl e, w')) \<longrightarrow>
      download_all http unzip path w = (Inl e, w'))"
proof (intro conjI impI)
  assume "download_data http url name path w = (Inl e, w')"
  then show "last_call_raised http unzip w e w'" by (rule download_data_raised)
next
  assume "download_all http unzip path w = (Inl e, w')"
  then show "last_call_raised http unzip w e w'" by (rule download_all_raised)
next
  assume "\<not> path_exists w path \<and> os_mkdir path (log (Exists path) w) = (Inl e, w')"
  then show "download_data http url name path w = (Inl e, w')"
    by (simp add: download_data_mkdir_raises)
next
  assume st: "path_exists w path \<and> wd = log (Exists path) w \<or>
    \<not> path_exists w path \<and> os_mkdir path (log (Exists path) w) = (Inr (), wd)"
  note t = download_data_tail [OF st, of http url name]
  {
    assume "requests_get http url wd = (Inl e, w')"
    then show "download_data http url name path w = (Inl e, w')"
      by (simp add: t bind_io_def)
  next
    assume "requests_get http url wd = (Inr body, w2) \<and>
       open_wb (os_path_join path name) w2 = (Inl e, w')"
    then show "download_data http url name path w = (Inl e, w')"
      by (simp add: t bind_io_def)
  next
    assume "requests_get http url wd = (Inr body, w2) \<and>
       open_wb (os_path_join path name) w2 = (Inr k, w3) \<and>
       file_write k body w3 = (Inl e, w')"
    then show "download_data http url name path w = (Inl e, w')"
      by (simp add: t bind_io_def)
  }
next
  assume "path_exists w path \<and> http url (length (calls w) + 1) = Inl e"
  then show "download_data http url name path w = (Inl e, log (Get url) (log (Exists path) w))"
    by (simp add: download_data_def bind_io_def os_path_exists_def return_io_def requests_get_def)
next
  assume a: "path_exists w path \<and> http url (length (calls w) + 1) = Inr body \<and>
    open_wb (os_path_join path name) (log (Get url) (log (Exists path) w)) = (Inr k, w4) \<and>
    free w4 < length body"
  then have c: "content w4 k = []" by (auto simp: open_wb_Inr content_def)
  from a have "download_data http url name path w = file_write k body w4"
    by (simp add: download_data_def bind_io_def os_path_exists_def return_io_def requests_get_def)
  with a c show "\<exists>w5. download_data http url name path w = (Inl NoSpaceError, w5) \<and>
            fs w5 k = Some (File (take (free w4) body))"
    by (simp add: file_write_def append_key_def)
next
  assume "download_data http (fst OCCUPANCY) (snd OCCUPANCY) path w = (Inl e, w')"
  then show "download_all http unzip path w = (Inl e, w')"
    by (simp add: download_all_first bind_io_def)
next
  assume "download_data http (fst OCCUPANCY) (snd OCCUPANCY) path w = (Inr u, w1) \<and>
    download_data http (fst CREDIT) (snd CREDIT) path w1 = (Inl e, w')"
  then show "download_all http unzip path w = (Inl e, w')"
    by (simp add: download_all_first bind_io_def)
next
  assume "download_data http (fst OCCUPANCY) (snd OCCUPANCY) path w = (Inr u, w1) \<and>
    download_data http (fst CREDIT) (snd CREDIT) path w1 = (Inr u, w2) \<and>
    download_data http (fst CONCRETE) (snd CONCRETE) path w2 = (Inl e, w')"
  then show "download_all http unzip path w = (Inl e, w')"
    by (simp add: download_all_first bind_io_def)
next
  assume "for_each (\<lambda>(href, name). download_data http href name path)
      [OCCUPANCY, CREDIT, CONCRETE] w = (Inr u, w3) \<and>
    zipfile_ZipFile unzip (os_path_join path ''occupancy.zip'') w3 = (Inl e, w4)"
  then show "download_all http unzip path w = (Inl e, w4)"
    by (simp add: download_all_def bind_io_def)
next
  assume "for_each (\<lambda>(href, name). download_data http href name path)
      [OCCUPANCY, CREDIT, CONCRETE] w = (Inr u, w3) \<and>
    zipfile_ZipFile unzip (os_path_join path ''occupancy.zip'') w3 = (Inr z, w4) \<and>
    extractall z (os_path_join path ''occupancy'') w4 = (Inl e, w5)"
  then show "download_all http unzip path w = (Inl e, w5)"
    by (simp add: download_all_def bind_io_def)
next
  assume a: "(t = OCCUPANCY \<and> wi = w \<or>
     t = CREDIT \<and> download_data http (fst OCCUPANCY) (snd OCCUPANCY) path w = (Inr u, wi) \<or>
     t = CONCRETE \<and>
       (\<exists>w1. download_data http (fst OCCUPANCY) (snd OCCUPANCY) path w = (Inr u, w1) \<and>
             download_data http (fst CREDIT) (snd CREDIT) path w1 = (Inr u, wi))) \<and>
    (path_exists wi path \<and> wj = log (Exists path) wi \<or>
     \<not> path_exists wi path \<and> os_mkdir path (log (Exists path) wi) = (Inr (), wj)) \<and>
    (requests_get http (fst t) wj = (Inl e, w') \<or>
     requests_get http (fst t) wj = (Inr body, w2) \<and>
       open_wb (os_path_join path (snd t)) w2 = (Inl e, w') \<or>
     requests_get http (fst t) wj = (Inr body, w2) \<and>
       open_wb (os_path_join path (snd t)) w2 = (Inr k, w3) \<and>
       file_write k body w3 = (Inl e, w'))"
  then have st: "path_exists wi path \<and> wj = log (Exists path) wi \<or>
     \<not> path_exists wi path \<and> os_mkdir path (log (Exists path) wi) = (Inr (), wj)"
    by blast
  from a have "bind_io (requests_get http (fst t)) (\<lambda>response.
       bind_io (open_wb (os_path_join path (snd t))) (\<lambda>f. file_write f response)) wj = (Inl e, w')"
    by (auto simp: bind_io_def)
  then have d: "download_data http (fst t) (snd t) path wi = (Inl e, w')"
    by (simp add: download_data_tail [OF st])
  from a consider "t = OCCUPANCY" "wi = w"
    | "t = CREDIT" "download_data http (fst OCCUPANCY) (snd OCCUPANCY) path w = (Inr u, wi)"
    | w1 where "t = CONCRETE"
        "download_data http (fst OCCUPANCY) (snd OCCUPANCY) path w = (Inr u, w1)"
        "download_data http (fst CREDIT) (snd CREDIT) path w1 = (Inr u, wi)"
    by blast
  then show "download_all http unzip path w = (Inl e, w')"
  proof cases
    case 1
    with d show ?thesis by (simp add: download_all_first bind_io_def)
  next
    case 2
    with d show ?thesis by (simp add: download_all_first bind_io_def)
  next
    case 3
    with d show ?thesis by (simp add: download_all_first bind_io_def)
  qed
qed

text \<open>An address that cannot be reached, a directory whose parent is missing, a disk with
  room for two of three bytes, a network that answers the first address only, and
  downloads that are no archive.\<close>

theorem failures_propagate_witness:
  "download_data http_one ''x'' ''f.bin'' ''data'' w_data =
     (Inl (RequestException ''no route''), log (Get ''x'') (log (Exists ''data'') w_data)) \<and>
   last_call_raised http_one unzip_none w_data (RequestException ''no route'')
     (log (Get ''x'') (log (Exists ''data'') w_data)) \<and>
   download_data http_one ''u'' ''f.bin'' ''a/b'' w_home =
     (Inl FileNotFoundError, log (Mkdir ''a/b'') (log (Exists ''a/b'') w_home)) \<and>
   (\<exists>w5. download_data http_one ''u'' ''f.bin'' ''data'' w_full = (Inl NoSpaceError, w5) \<and>
         fs w5 [''home'', ''data'', ''f.bin''] = Some (File [1, 2])) \<and>
   fst (download_data http_first (fst OCCUPANCY) (snd OCCUPANCY) ''data'' w_home) = Inr () \<and>
   download_all http_first unzip_two ''data'' w_home =
     (Inl (RequestException ''no route''),
      log (Get (fst CREDIT)) (log (Exists ''data'')
        (snd (download_data http_first (fst OCCUPANCY) (snd OCCUPANCY) ''data'' w_home)))) \<and>
   fst (download_all http_all unzip_none ''data'' w_home) =
     Inl (BadZipFile ''File is not a zip file'') \<and>
   last_call_raised http_all unzip_none w_home (BadZipFile ''File is not a zip file'')
     (snd (download_all http_all unzip_none ''data'' w_home))"
proof -
  have h1: "path_exists w_data ''data'' \<and>
      http_one ''x'' (length (calls w_data) + 1) = Inl (RequestException ''no route'')"
    by (simp add: run_defs)
  note 1 = failures_propagate [where http = http_one and url = "''x''" and name = "''f.bin''"
      and path = "''data''" and w = w_data and e = "RequestException ''no route''",
      THEN conjunct2, THEN conjunct2, THEN conjunct2, THEN conjunct2, THEN conjunct1,
      THEN mp, OF h1]
  note 2 = failures_propagate [where http = http_one and url = "''x''" and name = "''f.bin''"
      and path = "''data''" and w = w_data and e = "RequestException ''no route''"
      and unzip = unzip_none, THEN conjunct1, THEN mp, OF 1]
  have hm: "\<not> path_exists w_home ''a/b'' \<and>
      os_mkdir ''a/b'' (log (Exists ''a/b'') w_home) =
        (Inl FileNotFoundError, log (Mkdir ''a/b'') (log (Exists ''a/b'') w_home))"
    by (simp add: run_defs)
  note m = failures_propagate [where http = http_one and url = "''u''" and name = "''f.bin''"
      and path = "''a/b''" and w = w_home and e = FileNotFoundError,
      THEN conjunct2, THEN conjunct2, THEN conjunct1, THEN mp, OF hm]
  have h3: "path_exists w_full ''data'' \<and> http_one ''u'' (length (calls w_full) + 1) = Inr [1, 2, 3] \<and>
    open_wb (os_path_join ''data'' ''f.bin'') (log (Get ''u'') (log (Exists ''data'') w_full)) =
      (Inr [''home'', ''data'', ''f.bin''],
       (log (Open_wb ''data/f.bin'') (log (Get ''u'') (log (Exists ''data'') w_full)))
         \<lparr>fs := (fs w_full)([''home'', ''data'', ''f.bin''] \<mapsto> File [])\<rparr>) \<and>
    free ((log (Open_wb ''data/f.bin'') (log (Get ''u'') (log (Exists ''data'') w_full)))
         \<lparr>fs := (fs w_full)([''home'', ''data'', ''f.bin''] \<mapsto> File [])\<rparr>) < length [1, 2, 3 :: byte]"
    by (simp add: run_defs)
  from failures_propagate [where http = http_one and url = "''u''" and name = "''f.bin''"
      and path = "''data''" and w = w_full and body = "[1, 2, 3]"
      and k = "[''home'', ''data'', ''f.bin'']",
      THEN conjunct2, THEN conjunct2, THEN conjunct2, THEN conjunct2, THEN conjunct2,
      THEN conjunct1, THEN mp, OF h3]
  have 3: "\<exists>w5. download_data http_one ''u'' ''f.bin'' ''data'' w_full = (Inl NoSpaceError, w5) \<and>
         fs w5 [''home'', ''data'', ''f.bin''] = Some (File [1, 2])"
    by (simp add: run_defs)
  let ?w1 = "snd (download_data http_first (fst OCCUPANCY) (snd OCCUPANCY) ''data'' w_home)"
  have r1: "fst (download_data http_first (fst OCCUPANCY) (snd OCCUPANCY) ''data'' w_home) = Inr ()"
    by (simp add: run_defs)
  then have d1: "download_data http_first (fst OCCUPANCY) (snd OCCUPANCY) ''data'' w_home =
      (Inr (), ?w1)"
    by (simp add: prod_eq_iff)
  have e1: "path_exists ?w1 ''data''" by (simp add: run_defs)
  have g2: "requests_get http_first (fst CREDIT) (log (Exists ''data'') ?w1) =
      (Inl (RequestException ''no route''), log (Get (fst CREDIT)) (log (Exists ''data'') ?w1))"
    by (simp add: requests_get_def http_first_def OCCUPANCY_def CREDIT_def)
  have hl: "(CREDIT = OCCUPANCY \<and> ?w1 = w_home \<or>
     CREDIT = CREDIT \<and>
       download_data http_first (fst OCCUPANCY) (snd OCCUPANCY) ''data'' w_home = (Inr (), ?w1) \<or>
     CREDIT = CONCRETE \<and>
       (\<exists>w1. download_data http_first (fst OCCUPANCY) (snd OCCUPANCY) ''data'' w_home = (Inr (), w1) \<and>
             download_data http_first (fst CREDIT) (snd CREDIT) ''data'' w1 = (Inr (), ?w1))) \<and>
    (path_exists ?w1 ''data'' \<and> log (Exists ''data'') ?w1 = log (Exists ''data'') ?w1 \<or>
     \<not> path_exists ?w1 ''data'' \<and>
       os_mkdir ''data'' (log (Exists ''data'') ?w1) = (Inr (), log (Exists ''data'') ?w1)) \<and>
    (requests_get http_first (fst CREDIT) (log (Exists ''data'') ?w1) =
        (Inl (RequestException ''no route''), log (Get (fst CREDIT)) (log (Exists ''data'') ?w1)) \<or>
     requests_get http_first (fst CREDIT) (log (Exists ''data'') ?w1) = (Inr [], w_home) \<and>
       open_wb (os_path_join ''data'' (snd CREDIT)) w_home =
         (Inl (RequestException ''no route''), log (Get (fst CREDIT)) (log (Exists ''data'') ?w1)) \<or>
     requests_get http_first (fst CREDIT) (log (Exists ''data'') ?w1) = (Inr [], w_home) \<and>
       open_wb (os_path_join ''data'' (snd CREDIT)) w_home = (Inr [], w_home) \<and>
       file_write [] [] w_home =
         (Inl (RequestException ''no route''), log (Get (fst CREDIT)) (log (Exists ''data'') ?w1)))"
    using d1 e1 g2 by blast
  note l = failures_propagate [where http = http_first and unzip = unzip_two and path = "''data''"
      and w = w_home and t = CREDIT and wi = ?w1 and wj = "log (Exists ''data'') ?w1"
      and u = "()" and e = "RequestException ''no route''" and body = "[]" and k = "[]"
      and w' = "log (Get (fst CREDIT)) (log (Exists ''data'') ?w1)",
      THEN conjunct2, THEN conjunct2, THEN conjunct2, THEN conjunct2, THEN conjunct2,
      THEN conjunct2, THEN conjunct2, THEN conjunct2, THEN conjunct2, THEN conjunct2,
      THEN conjunct2, THEN mp, OF hl]
  have 4: "fst (download_all http_all unzip_none ''data'' w_home) =
     Inl (BadZipFile ''File is not a zip file'')"
    by (simp add: run_defs)
  then have "download_all http_all unzip_none ''data'' w_home =
     (Inl (BadZipFile ''File is not a zip file''), snd (download_all http_all unzip_none ''data'' w_home))"
    by (simp add: prod_eq_iff)
  note 5 = failures_propagate [where http = http_all and unzip = unzip_none
      and path = "''data''" and w = w_home and e = "BadZipFile ''File is not a zip file''",
      THEN conjunct2, THEN conjunct1, THEN mp, OF this]
  from 1 2 m 3 r1 l 4 5 show ?thesis by simp
qed

section \<open>Where files are written\<close>

text \<open>
  Claim C7. Whatever the network answers and the archive holds, and however the cell ends,
  the fetch changes no entry of the file tree outside the directory \<^verbatim>\<open>data\<close> of the
  working directory: the downloads are entries of \<^verbatim>\<open>data\<close> (which the first of them may
  make), and once they are there the extraction changes nothing outside
  \<^verbatim>\<open>data/occupancy\<close>, whatever the names stored in the archive. The plotting cell changes
  at most the file \<^verbatim>\<open>figures/quadratics.png\<close>.
\<close>

theorem writes_are_confined:
  "(fetch_cell http unzip w = (r, w') \<longrightarrow>
      (\<forall>k. \<not> prefix (cwd w @ [''data'']) k \<longrightarrow> fs w' k = fs w k)) \<and>
   (for_each (\<lambda>(href, name). download_data http href name ''data'')
      [OCCUPANCY, CREDIT, CONCRETE] w = (Inr u, w3) \<and>
    zipfile_ZipFile unzip (os_path_join ''data'' ''occupancy.zip'') w3 = (Inr z, w4) \<and>
    extractall z (os_path_join ''data'' ''occupancy'') w4 = (r, w') \<longrightarrow>
      fetch_cell http unzip w = (r, w') \<and>
      (\<forall>k. \<not> prefix (cwd w @ [''data'', ''occupancy'']) k \<longrightarrow> fs w' k = fs w3 k)) \<and>
   (quadratics_cell png w = (r, w') \<longrightarrow>
      (\<forall>k. k \<noteq> cwd w @ [''figures'', ''quadratics.png''] \<longrightarrow> fs w' k = fs w k))"
proof (intro conjI impI)
  assume a: "fetch_cell http unzip w = (r, w')"
  have "inside (cwd w @ [''data'']) (cwd w) (fs w) w" by (simp add: inside_def)
  from tripleD [OF triple_fetch_cell this a]
  have "inside (cwd w @ [''data'']) (cwd w) (fs w) w'" by (simp split: sum.splits)
  then show "\<forall>k. \<not> prefix (cwd w @ [''data'']) k \<longrightarrow> fs w' k = fs w k"
    by (simp add: inside_def)
next
  assume a: "for_each (\<lambda>(href, name). download_data http href name ''data'')
      [OCCUPANCY, CREDIT, CONCRETE] w = (Inr u, w3) \<and>
    zipfile_ZipFile unzip (os_path_join ''data'' ''occupancy.zip'') w3 = (Inr z, w4) \<and>
    extractall z (os_path_join ''data'' ''occupancy'') w4 = (r, w')"
  then have ds: "for_each (\<lambda>(href, name). download_data http href name ''data'')
      [OCCUPANCY, CREDIT, CONCRETE] w = (Inr u, w3)"
    and zp: "zipfile_ZipFile unzip (os_path_join ''data'' ''occupancy.zip'') w3 = (Inr z, w4)"
    and ex: "extractall z (os_path_join ''data'' ''occupancy'') w4 = (r, w')"
    by simp_all
  from ds zp ex show "fetch_cell http unzip w = (r, w')"
    by (simp add: fetch_cell_def download_all_def bind_io_def)
  have n: "plain_name ''occupancy.zip''" "plain_name ''credit.xls''" "plain_name ''concrete.xls''"
    by (simp_all add: plain_name_def)
  have "triple (inside (cwd w @ [''data'']) (cwd w) (fs w))
      (for_each (\<lambda>(href, name). download_data http href name ''data'')
         [OCCUPANCY, CREDIT, CONCRETE])
      (\<lambda>_. inside (cwd w @ [''data'']) (cwd w) (fs w)) (inside (cwd w @ [''data'']) (cwd w) (fs w))"
    unfolding downloads_unfold
    by (rule triple_bind [OF triple_download_data [OF n(1)]],
        rule triple_bind [OF triple_download_data [OF n(2)]],
        rule triple_bind [OF triple_download_data [OF n(3)]],
        rule triple_return)
  from tripleD [OF this _ ds] have c3: "cwd w3 = cwd w" by (simp add: inside_def)
  from zipfile_ZipFile_world [OF zp] have w4: "w4 = log (ZipFile (os_path_join ''data'' ''occupancy.zip'')) w3" .
  have "inside (cwd w3 @ [''data'']) (cwd w3) (fs w3) w3" by (simp add: inside_def)
  from tripleD [OF triple_zipfile_data this zp] have "fs w4 (cwd w4 @ [''data'']) = Some Dir"
    by (simp add: w4)
  from extractall_data_inside [OF this ex]
  show "\<forall>k. \<not> prefix (cwd w @ [''data'', ''occupancy'']) k \<longrightarrow> fs w' k = fs w3 k"
    by (simp add: inside_def w4 c3)
next
  assume "quadratics_cell png w = (r, w')"
  from quadratics_cell_only_at [OF this]
  show "\<forall>k. k \<noteq> cwd w @ [''figures'', ''quadratics.png''] \<longrightarrow> fs w' k = fs w k"
    by (simp add: only_at_def)
qed

text \<open>An archive member stored as \<^verbatim>\<open>sub/../../evil.txt\<close> lands in \<^verbatim>\<open>data/occupancy/sub\<close>,
  and the figure in \<^verbatim>\<open>figures\<close>.\<close>

theorem writes_are_confined_witness:
  "fst (fetch_cell http_all unzip_two w_home) = Inr () \<and>
   fs (snd (fetch_cell http_all unzip_two w_home))
     [''home'', ''data'', ''occupancy'', ''sub'', ''evil.txt''] = Some (File [1]) \<and>
   fs (snd (fetch_cell http_all unzip_two w_home)) [''home'', ''evil.txt''] = None \<and>
   fs (snd (fetch_cell http_all unzip_two w_home)) [''evil.txt''] = None \<and>
   fst (quadratics_cell [137, 80] w_figures) = Inr () \<and>
   fs (snd (quadratics_cell [137, 80] w_figures)) [''home'', ''figures'', ''quadratics.png'']
     = Some (File [137, 80]) \<and>
   fs (snd (quadratics_cell [137, 80] w_figures)) [''home'', ''figures''] = Some Dir"
proof -
  let ?w' = "snd (fetch_cell http_all unzip_two w_home)"
  have run: "fst (fetch_cell http_all unzip_two w_home) = Inr ()"
    by (simp add: run_defs)
  then have "fetch_cell http_all unzip_two w_home = (Inr (), ?w')"
    by (simp add: prod_eq_iff)
  note f = writes_are_confined [where http = http_all and unzip = unzip_two and w = w_home
      and r = "Inr ()" and w' = ?w', THEN conjunct1, THEN mp, OF this]
  have 1: "fs ?w' [''home'', ''evil.txt''] = None"
    using f [THEN spec, of "[''home'', ''evil.txt'']"] by (simp add: w_home_def fs_home_def)
  have 2: "fs ?w' [''evil.txt''] = None"
    using f [THEN spec, of "[''evil.txt'']"] by (simp add: w_home_def fs_home_def)
  have 3: "fs ?w' [''home'', ''data'', ''occupancy'', ''sub'', ''evil.txt''] = Some (File [1])"
    by (simp add: run_defs)
  let ?v' = "snd (quadratics_cell [137, 80] w_figures)"
  have q: "fst (quadratics_cell [137, 80] w_figures) = Inr ()"
    by (simp add: run_defs)
  then have "quadratics_cell [137, 80] w_figures = (Inr (), ?v')"
    by (simp add: prod_eq_iff)
  note g = writes_are_confined [where png = "[137, 80]" and w = w_figures
      and r = "Inr ()" and w' = ?v', THEN conjunct2, THEN conjunct2, THEN mp, OF this]
  have 4: "fs ?v' [''home'', ''figures''] = Some Dir"
    using g [THEN spec, of "[''home'', ''figures'']"]
    by (simp add: w_figures_def w_home_def fs_home_def)
  have 5: "fs ?v' [''home'', ''figures'', ''quadratics.png''] = Some (File [137, 80])"
    by (simp add: run_defs)
  from run 1 2 3 q 4 5 show ?thesis by simp
qed

section \<open>Control flow\<close>




end
